theory Spec2Isabelle
  imports Complex_Main "HOL-Library.Log_Nat"
begin

section \<open>Python numbers\<close>

text \<open>
  The estimator of \<^verbatim>\<open>app/main.py\<close> computes with Python's two number types: \<^verbatim>\<open>int\<close>,
  which is unbounded and modelled by \<^typ>\<open>int\<close>, and \<^verbatim>\<open>float\<close>, which is IEEE 754 binary64.
  A finite float is modelled by the rational number it denotes; every float operation
  computes the exact rational result and rounds it to the nearest binary64 value, ties to
  even. The two zeros of binary64 are identified: the program never divides by a computed
  value, and compares floats only with \<^verbatim>\<open>!=\<close> and \<^verbatim>\<open><\<close>, which do not tell them apart.
  The rationals under \<open>Fin\<close> are binary64 values wherever the program is concerned: they are
  results of rounding, or the literals \<^verbatim>\<open>-1.0\<close>, \<^verbatim>\<open>1.0\<close>, \<^verbatim>\<open>1.25\<close> and the small integer
  constants, which binary64 holds exactly. An operation on floats never raises on overflow
  (it returns an infinity); converting an \<^verbatim>\<open>int\<close> that is out of range does.
\<close>

datatype py_error = OverflowError | ZeroDivisionError | ValueError

definition bind_err :: "py_error + 'a \<Rightarrow> ('a \<Rightarrow> py_error + 'b) \<Rightarrow> py_error + 'b" where
  "bind_err m f = (case m of Inl e \<Rightarrow> Inl e | Inr v \<Rightarrow> f v)"

subsection \<open>Rounding to binary64\<close>

text \<open>Rounding a rational to the nearest integer, a tie going to the even neighbour.\<close>

definition rhe :: "rat \<Rightarrow> int" where
  "rhe x = (let f = \<lfloor>x\<rfloor>; d = x - of_int f in
     if d < 1 / 2 then f else if 1 / 2 < d then f + 1 else if even f then f else f + 1)"

text \<open>The binary exponent of a non-zero rational: \<open>2 powi ilog2 x \<le> \<bar>x\<bar> < 2 powi (ilog2 x + 1)\<close>.\<close>

definition ilog2 :: "rat \<Rightarrow> int" where
  "ilog2 x = (let (p, q) = quotient_of \<bar>x\<bar>; d = bitlen p - bitlen q in
     if 2 powi d \<le> \<bar>x\<bar> then d else d - 1)"

text \<open>
  The exponent of the last place of the binary64 values around \<open>x\<close>: 53 significant bits,
  and never below the subnormal spacing \<open>2 powi (-1074)\<close>.
\<close>

definition quantum :: "rat \<Rightarrow> int" where
  "quantum x = max (ilog2 x - 52) (- 1074)"

definition rnd :: "rat \<Rightarrow> rat" where
  "rnd x = (if x = 0 then 0 else of_int (rhe (x / 2 powi quantum x)) * 2 powi quantum x)"

subsection \<open>Floats\<close>

datatype fl = Fin rat | PInf | NInf | NaN

text \<open>The result of an IEEE operation whose exact value is \<open>x\<close>: rounded, an overflow giving an infinity.\<close>

definition pack :: "rat \<Rightarrow> fl" where
  "pack x = (let r = rnd x in
     if 2 ^ 1024 \<le> r then PInf else if r \<le> - (2 ^ 1024) then NInf else Fin r)"

fun fneg :: "fl \<Rightarrow> fl" where
  "fneg (Fin a) = Fin (- a)"
| "fneg PInf = NInf"
| "fneg NInf = PInf"
| "fneg NaN = NaN"

fun fadd :: "fl \<Rightarrow> fl \<Rightarrow> fl" where
  "fadd (Fin a) (Fin b) = pack (a + b)"
| "fadd NaN _ = NaN"
| "fadd _ NaN = NaN"
| "fadd PInf NInf = NaN"
| "fadd NInf PInf = NaN"
| "fadd PInf _ = PInf"
| "fadd NInf _ = NInf"
| "fadd _ PInf = PInf"
| "fadd _ NInf = NInf"

definition fsub :: "fl \<Rightarrow> fl \<Rightarrow> fl" where
  "fsub x y = fadd x (fneg y)"

fun fmul :: "fl \<Rightarrow> fl \<Rightarrow> fl" where
  "fmul (Fin a) (Fin b) = pack (a * b)"
| "fmul NaN _ = NaN"
| "fmul _ NaN = NaN"
| "fmul (Fin a) PInf = (if a = 0 then NaN else if 0 < a then PInf else NInf)"
| "fmul (Fin a) NInf = (if a = 0 then NaN else if 0 < a then NInf else PInf)"
| "fmul PInf (Fin b) = (if b = 0 then NaN else if 0 < b then PInf else NInf)"
| "fmul NInf (Fin b) = (if b = 0 then NaN else if 0 < b then NInf else PInf)"
| "fmul PInf PInf = PInf"
| "fmul PInf NInf = NInf"
| "fmul NInf PInf = NInf"
| "fmul NInf NInf = PInf"

text \<open>Python's \<^verbatim>\<open>float / float\<close>: a zero divisor raises, whatever the dividend.\<close>

fun fdiv :: "fl \<Rightarrow> fl \<Rightarrow> py_error + fl" where
  "fdiv x (Fin b) =
     (if b = 0 then Inl ZeroDivisionError
      else case x of
        Fin a \<Rightarrow> Inr (pack (a / b))
      | PInf \<Rightarrow> Inr (if 0 < b then PInf else NInf)
      | NInf \<Rightarrow> Inr (if 0 < b then NInf else PInf)
      | NaN \<Rightarrow> Inr NaN)"
| "fdiv (Fin a) PInf = Inr (Fin 0)"
| "fdiv (Fin a) NInf = Inr (Fin 0)"
| "fdiv _ _ = Inr NaN"

fun fl_lt :: "fl \<Rightarrow> fl \<Rightarrow> bool" where
  "fl_lt (Fin a) (Fin b) = (a < b)"
| "fl_lt NaN _ = False"
| "fl_lt _ NaN = False"
| "fl_lt _ NInf = False"
| "fl_lt PInf _ = False"
| "fl_lt NInf _ = True"
| "fl_lt _ PInf = True"

fun fl_le :: "fl \<Rightarrow> fl \<Rightarrow> bool" where
  "fl_le (Fin a) (Fin b) = (a \<le> b)"
| "fl_le NaN _ = False"
| "fl_le _ NaN = False"
| "fl_le NInf _ = True"
| "fl_le _ PInf = True"
| "fl_le _ NInf = False"
| "fl_le PInf _ = False"

subsection \<open>Conversions between \<^verbatim>\<open>int\<close> and \<^verbatim>\<open>float\<close>\<close>

text \<open>\<^verbatim>\<open>float(n)\<close>, also the implicit conversion of an \<^verbatim>\<open>int\<close> operand of a float operation:
  correctly rounded, and an error when the rounded value is out of range.\<close>

definition float_of_int :: "int \<Rightarrow> py_error + fl" where
  "float_of_int n = (let r = rnd (of_int n) in
     if 2 ^ 1024 \<le> \<bar>r\<bar> then Inl OverflowError else Inr (Fin r))"

text \<open>\<^verbatim>\<open>a / b\<close> on two \<^verbatim>\<open>int\<close>s: the correctly rounded quotient.\<close>

definition int_truediv :: "int \<Rightarrow> int \<Rightarrow> py_error + fl" where
  "int_truediv a b =
     (if b = 0 then Inl ZeroDivisionError
      else let r = rnd (of_int a / of_int b) in
        if 2 ^ 1024 \<le> \<bar>r\<bar> then Inl OverflowError else Inr (Fin r))"

text \<open>\<^verbatim>\<open>int(x)\<close> truncates towards zero.\<close>

fun int_of_float :: "fl \<Rightarrow> py_error + int" where
  "int_of_float (Fin a) = Inr (if 0 \<le> a then \<lfloor>a\<rfloor> else \<lceil>a\<rceil>)"
| "int_of_float PInf = Inl OverflowError"
| "int_of_float NInf = Inl OverflowError"
| "int_of_float NaN = Inl ValueError"

text \<open>\<^verbatim>\<open>x != n\<close> between a float and an \<^verbatim>\<open>int\<close> compares the exact values.\<close>

definition fl_ne_int :: "fl \<Rightarrow> int \<Rightarrow> bool" where
  "fl_ne_int x n = (x \<noteq> Fin (of_int n))"

text \<open>
  \<^verbatim>\<open>round(x, 2)\<close> on a float: the exact value is rounded to two decimals (ties to even), and
  the decimal is converted to the nearest float. \<open>hundredths\<close> is the two-decimal number
  chosen, counted in hundredths.
\<close>

definition hundredths :: "rat \<Rightarrow> int" where
  "hundredths x = rhe (x * 100)"

fun py_round2 :: "fl \<Rightarrow> py_error + fl" where
  "py_round2 (Fin a) = (let r = rnd (of_int (hundredths a) / 100) in
     if 2 ^ 1024 \<le> \<bar>r\<bar> then Inl OverflowError else Inr (Fin r))"
| "py_round2 x = Inr x"

section \<open>The estimator\<close>

definition C_WEIGHTS_BYTES :: int where "C_WEIGHTS_BYTES = 2132400000"
definition C_OVERHEAD_BYTES :: int where "C_OVERHEAD_BYTES = 500000000"
definition C_L_FACTOR :: int where "C_L_FACTOR = 3072"
definition K_ITER_BASE :: int where "K_ITER_BASE = 20000"
definition K_ATTN_STANDARD_MULTIPLIER :: fl where "K_ATTN_STANDARD_MULTIPLIER = Fin (5 / 4)"

text \<open>\<^verbatim>\<open>bytes_to_gb(b) = b / (1024**3)\<close> is called on a float by the estimator and on an
  \<^verbatim>\<open>int\<close> by the request handler.\<close>

definition bytes_to_gb :: "fl \<Rightarrow> py_error + fl" where
  "bytes_to_gb b = bind_err (float_of_int (1024 ^ 3)) (fdiv b)"

definition bytes_to_gb_int :: "int \<Rightarrow> py_error + fl" where
  "bytes_to_gb_int b = int_truediv b (1024 ^ 3)"

text \<open>The local variables of \<^verbatim>\<open>f_estimate\<close> when it reaches its last line.\<close>

record estimate_locals =
  M_fixed :: int
  M_prompt :: int
  latent_h :: fl
  latent_w :: fl
  N_latent_pixels :: fl
  M_latent_buffer :: fl
  M_unet_intermediate :: fl
  attn_multiplier :: fl
  mode_str :: string
  M_unet_intermediate_adjusted :: fl
  M_peak_activation :: fl
  M_peak_bytes :: fl

datatype body_result = Raised py_error | Returned fl string | Reached estimate_locals

text \<open>Lines 36 to 62 of \<^verbatim>\<open>f_estimate\<close>: an exception, the early return of line 46, or the
  locals at line 62.\<close>

definition f_estimate_body :: "int \<Rightarrow> int \<Rightarrow> int \<Rightarrow> bool \<Rightarrow> body_result" where
  "f_estimate_body h w prompt_len use_optimized =
    (let m_fixed = C_WEIGHTS_BYTES + C_OVERHEAD_BYTES;
         m_prompt = C_L_FACTOR * prompt_len
     in case int_truediv h 8 of Inl e \<Rightarrow> Raised e | Inr lat_h \<Rightarrow>
        case int_truediv w 8 of Inl e \<Rightarrow> Raised e | Inr lat_w \<Rightarrow>
        case int_of_float lat_h of Inl e \<Rightarrow> Raised e | Inr int_h \<Rightarrow>
        if fl_ne_int lat_h int_h
        then Returned (Fin (- 1)) ''Input dimensions must be multiples of 8.''
        else
        case int_of_float lat_w of Inl e \<Rightarrow> Raised e | Inr int_w \<Rightarrow>
        if fl_ne_int lat_w int_w
        then Returned (Fin (- 1)) ''Input dimensions must be multiples of 8.''
        else
        let n_pixels = fmul lat_h lat_w;
            m_buffer = fmul (fmul n_pixels (Fin 4)) (Fin 2);
            m_unet = fmul n_pixels (Fin (of_int K_ITER_BASE));
            mult = (if use_optimized then Fin 1 else K_ATTN_STANDARD_MULTIPLIER);
            mode = (if use_optimized then ''Optimized (Linear Scaling)''
                    else ''Standard (Quadratic Overhead)'');
            m_adjusted = fmul m_unet mult;
            m_peak = fadd m_adjusted m_buffer
        in case float_of_int (m_fixed + m_prompt) of Inl e \<Rightarrow> Raised e | Inr base \<Rightarrow>
           Reached \<lparr>M_fixed = m_fixed, M_prompt = m_prompt, latent_h = lat_h,
             latent_w = lat_w, N_latent_pixels = n_pixels, M_latent_buffer = m_buffer,
             M_unet_intermediate = m_unet, attn_multiplier = mult, mode_str = mode,
             M_unet_intermediate_adjusted = m_adjusted, M_peak_activation = m_peak,
             M_peak_bytes = fadd base m_peak\<rparr>)"

definition f_estimate :: "int \<Rightarrow> int \<Rightarrow> int \<Rightarrow> bool \<Rightarrow> py_error + fl \<times> string" where
  "f_estimate h w prompt_len use_optimized =
    (case f_estimate_body h w prompt_len use_optimized of
       Raised e \<Rightarrow> Inl e
     | Returned v msg \<Rightarrow> Inr (v, msg)
     | Reached L \<Rightarrow> bind_err (bytes_to_gb (M_peak_bytes L)) (\<lambda>gb. Inr (gb, mode_str L)))"

section \<open>The request handler\<close>

record VramRequest =
  height :: int
  width :: int
  prompt_length :: int
  optimization :: bool

record estimate_fields =
  predicted_vram_gb :: fl
  attention_mode :: string
  fixed_cost_gb :: fl
  spatial_cost_gb :: fl

datatype response = Rejected string string | Success estimate_fields

definition estimate_vram_endpoint :: "VramRequest \<Rightarrow> py_error + response" where
  "estimate_vram_endpoint request =
    (if height request \<le> 0 \<or> width request \<le> 0
     then Inr (Rejected ''Invalid dimensions'' ''Height and width must be positive integers.'')
     else if prompt_length request < 1 \<or> prompt_length request > 77
     then Inr (Rejected ''Invalid prompt length''
                 ''Prompt length must be between 1 and 77 tokens.'')
     else bind_err (f_estimate (height request) (width request) (prompt_length request)
                      (optimization request)) (\<lambda>(result_gb, mode).
       if fl_lt result_gb (Fin 0)
       then Inr (Rejected mode
                   ''Please use dimensions divisible by 8 (e.g., 512, 768, 1024).'')
       else bind_err (bytes_to_gb_int (C_WEIGHTS_BYTES + C_OVERHEAD_BYTES)) (\<lambda>fixed_gb.
            bind_err (py_round2 result_gb) (\<lambda>predicted.
            bind_err (py_round2 fixed_gb) (\<lambda>fixed.
            bind_err (py_round2 (fsub result_gb fixed_gb)) (\<lambda>spatial.
              Inr (Success \<lparr>predicted_vram_gb = predicted, attention_mode = mode,
                     fixed_cost_gb = fixed, spatial_cost_gb = spatial\<rparr>)))))))"

section \<open>Predicates used by the properties\<close>

text \<open>The handler answered with an error payload whose \<^verbatim>\<open>error\<close> field is \<open>kind\<close>.\<close>

definition rejected_with :: "string \<Rightarrow> py_error + response \<Rightarrow> bool" where
  "rejected_with kind r = (case r of Inr (Rejected e d) \<Rightarrow> e = kind | _ \<Rightarrow> False)"

text \<open>The value of \<^verbatim>\<open>M_peak_bytes\<close>, when \<^verbatim>\<open>f_estimate\<close> gets as far as computing it.\<close>

definition peak_bytes :: "int \<Rightarrow> int \<Rightarrow> int \<Rightarrow> bool \<Rightarrow> fl option" where
  "peak_bytes h w p opt =
     (case f_estimate_body h w p opt of Reached L \<Rightarrow> Some (M_peak_bytes L) | _ \<Rightarrow> None)"

section \<open>The estimate as a function of the latent pixel count\<close>

text \<open>Lines 49 to 60 of \<^verbatim>\<open>f_estimate\<close>: \<^verbatim>\<open>M_peak_activation\<close> computed from
  \<^verbatim>\<open>N_latent_pixels\<close> and the flag.\<close>

definition peak_activation :: "fl \<Rightarrow> bool \<Rightarrow> fl" where
  "peak_activation n use_optimized =
     fadd (fmul (fmul n (Fin (of_int K_ITER_BASE)))
                (if use_optimized then Fin 1 else K_ATTN_STANDARD_MULTIPLIER))
          (fmul (fmul n (Fin 4)) (Fin 2))"

definition mode_description :: "bool \<Rightarrow> string" where
  "mode_description use_optimized =
     (if use_optimized then ''Optimized (Linear Scaling)'' else ''Standard (Quadratic Overhead)'')"

text \<open>The float that \<^verbatim>\<open>bytes_to_gb\<close> returns for a float argument.\<close>

definition to_gb :: "fl \<Rightarrow> fl" where
  "to_gb b = (case b of Fin a \<Rightarrow> pack (a / 2 ^ 30) | _ \<Rightarrow> b)"

text \<open>Line 62 and the conversion of line 64, from the two latent dimensions and the
  converted sum \<^verbatim>\<open>M_fixed + M_prompt\<close>.\<close>

definition estimate_gb :: "rat \<Rightarrow> rat \<Rightarrow> rat \<Rightarrow> bool \<Rightarrow> fl" where
  "estimate_gb lat_h lat_w base use_optimized =
     to_gb (fadd (Fin base) (peak_activation (fmul (Fin lat_h) (Fin lat_w)) use_optimized))"

text \<open>The float that \<^verbatim>\<open>round(x, 2)\<close> returns when it does not raise.\<close>

definition round2 :: "fl \<Rightarrow> fl" where
  "round2 x = (case x of Fin a \<Rightarrow> Fin (rnd (of_int (hundredths a) / 100)) | _ \<Rightarrow> x)"

section \<open>Properties of rounding\<close>

lemma rhe_cases: "rhe x = \<lfloor>x\<rfloor> \<or> rhe x = \<lfloor>x\<rfloor> + 1"
  by (simp add: rhe_def Let_def)

lemma rhe_err: "\<bar>of_int (rhe x) - x\<bar> \<le> 1 / 2"
proof -
  have "of_int \<lfloor>x\<rfloor> \<le> x" "x < of_int \<lfloor>x\<rfloor> + 1" by linarith+
  moreover have "rhe x = \<lfloor>x\<rfloor> \<longrightarrow> x - of_int \<lfloor>x\<rfloor> \<le> 1 / 2"
    unfolding rhe_def Let_def by (auto split: if_splits)
  moreover have "rhe x = \<lfloor>x\<rfloor> + 1 \<longrightarrow> 1 / 2 \<le> x - of_int \<lfloor>x\<rfloor>"
    unfolding rhe_def Let_def by (auto split: if_splits)
  ultimately show ?thesis using rhe_cases[of x] by (elim disjE) (simp only:, linarith)+
qed

lemma rhe_of_int [simp]: "rhe (of_int n) = n"
  by (simp add: rhe_def)

lemma rhe_mono: assumes "x \<le> y" shows "rhe x \<le> rhe y"
proof (cases "\<lfloor>x\<rfloor> = \<lfloor>y\<rfloor>")
  case True
  then show ?thesis using assms unfolding rhe_def Let_def by auto
next
  case False
  then have "\<lfloor>x\<rfloor> + 1 \<le> \<lfloor>y\<rfloor>" using floor_mono[OF assms] by linarith
  moreover have "rhe x \<le> \<lfloor>x\<rfloor> + 1" using rhe_cases[of x] by auto
  moreover have "\<lfloor>y\<rfloor> \<le> rhe y" using rhe_cases[of y] by auto
  ultimately show ?thesis by linarith
qed

lemma rhe_minus: "rhe (- x) = - rhe x"
proof (cases "x = of_int \<lfloor>x\<rfloor>")
  case True
  then obtain n where "x = of_int n" by metis
  then show ?thesis by (simp flip: of_int_minus)
next
  case False
  then have c: "\<lceil>x\<rceil> = \<lfloor>x\<rfloor> + 1" by (metis ceiling_altdef)
  have f: "\<lfloor>- x\<rfloor> = - \<lfloor>x\<rfloor> - 1" using c by (simp add: floor_minus)
  have lt: "of_int \<lfloor>x\<rfloor> < x" using False by (metis of_int_floor_le order_less_le)
  show ?thesis unfolding rhe_def Let_def f using lt by (auto simp: field_simps)
qed

lemma pow2_less_iff: "(2::rat) powi a < 2 powi b \<longleftrightarrow> a < b"
proof
  assume l: "(2::rat) powi a < 2 powi b"
  show "a < b"
  proof (rule ccontr)
    assume "\<not> a < b"
    then have "b \<le> a" by simp
    then have "(2::rat) powi b \<le> 2 powi a" by (intro power_int_increasing) auto
    with l show False by simp
  qed
next
  assume "a < b"
  then show "(2::rat) powi a < 2 powi b" by (intro power_int_strict_increasing) auto
qed

lemma pow2_le_iff: "(2::rat) powi a \<le> 2 powi b \<longleftrightarrow> a \<le> b"
  using pow2_less_iff[of b a] by (auto simp: not_less[symmetric])

lemma pow2_pos [simp]: "(0::rat) < 2 powi a"
  by simp

lemma ilog2_bounds:
  assumes "x \<noteq> 0"
  shows "2 powi ilog2 x \<le> \<bar>x\<bar>" and "\<bar>x\<bar> < 2 powi (ilog2 x + 1)"
proof -
  obtain p q where pq: "quotient_of \<bar>x\<bar> = (p, q)" by fastforce
  have q: "0 < q" using pq by (rule quotient_of_denom_pos)
  have x: "\<bar>x\<bar> = of_int p / of_int q" using pq by (rule quotient_of_div)
  have p: "0 < p" proof -
    have "0 < rat_of_int p / rat_of_int q" using assms x by (metis zero_less_abs_iff)
    then show ?thesis using q by (simp add: zero_less_divide_iff)
  qed
  define bp bq where "bp = bitlen p" and "bq = bitlen q"
  have bp1: "1 \<le> bp" and bq1: "1 \<le> bq" using p q by (auto simp: bp_def bq_def bitlen_alt_def)
  have bb: "\<And>m::int. 0 < m \<Longrightarrow> (2::rat) powi (bitlen m - 1) \<le> of_int m \<and> of_int m < (2::rat) powi bitlen m"
  proof -
    fix m :: int assume m: "0 < m"
    then have b1: "1 \<le> bitlen m" by (auto simp: bitlen_alt_def)
    have "(2::int) ^ nat (bitlen m - 1) \<le> m" "m < 2 ^ nat (bitlen m)"
      using bitlen_bounds[OF m] by auto
    then have "rat_of_int (2 ^ nat (bitlen m - 1)) \<le> of_int m" "rat_of_int m < of_int (2 ^ nat (bitlen m))"
      by (simp_all only: of_int_le_iff of_int_less_iff)
    then show "(2::rat) powi (bitlen m - 1) \<le> of_int m \<and> of_int m < (2::rat) powi bitlen m"
      using b1 by (simp add: power_int_nonneg_exp)
  qed
  have P: "(2::rat) powi (bp - 1) \<le> of_int p" "of_int p < (2::rat) powi bp"
    using bb[OF p] by (auto simp: bp_def)
  have Q: "(2::rat) powi (bq - 1) \<le> of_int q" "of_int q < (2::rat) powi bq"
    using bb[OF q] by (auto simp: bq_def)
  have qpos: "(0::rat) < of_int q" using q by simp
  have e1: "(2::rat) powi (bp - bq + 1) * 2 powi (bq - 1) = 2 powi bp"
    by (simp flip: power_int_add)
  have e2: "(2::rat) powi (bp - bq - 1) * 2 powi bq = 2 powi (bp - 1)"
    by (simp flip: power_int_add)
  have "(2::rat) powi (bp - bq + 1) * 2 powi (bq - 1) \<le> 2 powi (bp - bq + 1) * of_int q"
    using Q(1) by (intro mult_left_mono) auto
  then have "of_int p < (2::rat) powi (bp - bq + 1) * of_int q" using P(2) e1 by linarith
  then have up: "\<bar>x\<bar> < 2 powi (bp - bq + 1)" unfolding x using qpos by (simp add: field_simps)
  have "(2::rat) powi (bp - bq - 1) * of_int q < 2 powi (bp - bq - 1) * 2 powi bq"
    using Q(2) by (intro mult_strict_left_mono) auto
  then have "(2::rat) powi (bp - bq - 1) * of_int q < of_int p" using P(1) e2 by linarith
  then have lo: "2 powi (bp - bq - 1) < \<bar>x\<bar>" unfolding x using qpos by (simp add: field_simps)
  have il: "ilog2 x = (if 2 powi (bp - bq) \<le> \<bar>x\<bar> then bp - bq else bp - bq - 1)"
    unfolding ilog2_def pq by (simp add: bp_def bq_def Let_def)
  show "2 powi ilog2 x \<le> \<bar>x\<bar>" using lo unfolding il by auto
  show "\<bar>x\<bar> < 2 powi (ilog2 x + 1)" using up unfolding il by auto
qed

lemma ilog2_unique:
  assumes "2 powi e \<le> \<bar>x\<bar>" "\<bar>x\<bar> < 2 powi (e + 1)"
  shows "ilog2 x = e"
proof -
  have x: "x \<noteq> 0" proof
    assume "x = 0"
    then have "(2::rat) powi e \<le> 0" using assms(1) by simp
    moreover have "(0::rat) < 2 powi e" by simp
    ultimately show False by linarith
  qed
  note b = ilog2_bounds[OF x]
  have "(2::rat) powi e < 2 powi (ilog2 x + 1)" using assms(1) b(2) by linarith
  then have "e < ilog2 x + 1" by (simp add: pow2_less_iff)
  moreover have "(2::rat) powi ilog2 x < 2 powi (e + 1)" using assms(2) b(1) by linarith
  then have "ilog2 x < e + 1" by (simp add: pow2_less_iff)
  ultimately show ?thesis by linarith
qed

lemma ilog2_minus [simp]: "ilog2 (- x) = ilog2 x"
  by (simp add: ilog2_def)

lemma ilog2_mono: assumes "x \<noteq> 0" "\<bar>x\<bar> \<le> \<bar>y\<bar>" shows "ilog2 x \<le> ilog2 y"
proof -
  have y: "y \<noteq> 0" using assms by auto
  have "(2::rat) powi ilog2 x < 2 powi (ilog2 y + 1)"
    using ilog2_bounds(1)[OF assms(1)] ilog2_bounds(2)[OF y] assms(2) by linarith
  then have "ilog2 x < ilog2 y + 1" by (simp add: pow2_less_iff)
  then show ?thesis by simp
qed

lemma quantum_minus [simp]: "quantum (- x) = quantum x"
  by (simp add: quantum_def)

lemma rnd_0 [simp]: "rnd 0 = 0" by (simp add: rnd_def)

lemma rnd_minus: "rnd (- x) = - rnd x"
  by (simp add: rnd_def rhe_minus)

lemma rnd_err: "\<bar>rnd x - x\<bar> \<le> 2 powi quantum x / 2"
proof (cases "x = 0")
  case True then show ?thesis by simp
next
  case False
  define s :: rat where "s = 2 powi quantum x"
  have s: "0 < s" by (simp add: s_def)
  have "rnd x - x = (of_int (rhe (x / s)) - x / s) * s"
    using False s by (simp add: rnd_def s_def field_simps)
  then have "\<bar>rnd x - x\<bar> = \<bar>of_int (rhe (x / s)) - x / s\<bar> * s"
    using s by (simp add: abs_mult)
  also have "\<dots> \<le> (1 / 2) * s" using rhe_err[of "x / s"] s by (intro mult_right_mono) auto
  finally show ?thesis by (simp add: s_def)
qed

lemma rnd_grid_le:
  assumes "x \<le> of_int n * 2 powi quantum x"
  shows "rnd x \<le> of_int n * 2 powi quantum x"
proof (cases "x = 0")
  case True then show ?thesis using assms by simp
next
  case False
  have "x / 2 powi quantum x \<le> of_int n" using assms by (simp add: field_simps)
  then have "rhe (x / 2 powi quantum x) \<le> n" using rhe_mono rhe_of_int by metis
  then have "rat_of_int (rhe (x / 2 powi quantum x)) \<le> of_int n" by simp
  then show ?thesis using False by (simp add: rnd_def)
qed

lemma rnd_grid_ge:
  assumes "of_int n * 2 powi quantum x \<le> x"
  shows "of_int n * 2 powi quantum x \<le> rnd x"
proof (cases "x = 0")
  case True then show ?thesis using assms by simp
next
  case False
  have "of_int n \<le> x / 2 powi quantum x" using assms by (simp add: field_simps)
  then have "n \<le> rhe (x / 2 powi quantum x)" using rhe_mono rhe_of_int by metis
  then have "rat_of_int n \<le> of_int (rhe (x / 2 powi quantum x))" by simp
  then show ?thesis using False by (simp add: rnd_def)
qed

lemma rnd_grid_eq: "x = of_int n * 2 powi quantum x \<Longrightarrow> rnd x = x"
  using rnd_grid_le[of x n] rnd_grid_ge[of n x] by simp

lemma rnd_nonneg: "0 \<le> x \<Longrightarrow> 0 \<le> rnd x"
  using rnd_grid_ge[of 0 x] by simp

lemma rnd_nonpos: "x \<le> 0 \<Longrightarrow> rnd x \<le> 0"
  using rnd_grid_le[of x 0] by simp

lemma quantum_le_ilog2: "quantum x \<le> ilog2 x \<or> quantum x = - 1074"
  by (auto simp: quantum_def)

lemma pow2_split: "a \<le> b \<Longrightarrow> (2::rat) powi b = of_int (2 ^ nat (b - a)) * 2 powi a"
proof -
  assume "a \<le> b"
  then have "(2::rat) powi b = 2 powi (b - a) * 2 powi a" by (simp flip: power_int_add)
  also have "(2::rat) powi (b - a) = 2 ^ nat (b - a)" using \<open>a \<le> b\<close> by (simp add: power_int_nonneg_exp)
  finally show ?thesis by simp
qed

lemma rnd_mono_pos:
  assumes "0 < x" "x \<le> y"
  shows "rnd x \<le> rnd y"
proof -
  have x0: "x \<noteq> 0" and y0: "y \<noteq> 0" using assms by auto
  have e: "ilog2 x \<le> ilog2 y" using assms by (intro ilog2_mono) auto
  then have q: "quantum x \<le> quantum y" by (auto simp: quantum_def)
  show ?thesis
  proof (cases "quantum x = quantum y")
    case True
    have "x / 2 powi quantum y \<le> y / 2 powi quantum y" using assms by (simp add: divide_right_mono)
    then have "rat_of_int (rhe (x / 2 powi quantum y)) \<le> of_int (rhe (y / 2 powi quantum y))"
      using rhe_mono by simp
    then show ?thesis using x0 y0 True by (simp add: rnd_def)
  next
    case False
    then have lt: "quantum x < quantum y" using q by simp
    then have qy: "quantum y = ilog2 y - 52" by (auto simp: quantum_def)
    have ex: "ilog2 x + 1 \<le> ilog2 y" using lt qy by (auto simp: quantum_def)
    define P :: rat where "P = 2 powi ilog2 y"
    have xP: "x \<le> P"
    proof -
      have "x < 2 powi (ilog2 x + 1)" using ilog2_bounds(2)[OF x0] assms by simp
      also have "\<dots> \<le> P" unfolding P_def using ex by (simp add: pow2_le_iff)
      finally show ?thesis by simp
    qed
    have Py: "P \<le> y" using ilog2_bounds(1)[OF y0] assms by (simp add: P_def)
    have Px: "P = of_int (2 ^ nat (ilog2 y - quantum x)) * 2 powi quantum x"
      unfolding P_def using lt qy by (intro pow2_split) auto
    have Pyq: "P = of_int (2 ^ nat (ilog2 y - quantum y)) * 2 powi quantum y"
      unfolding P_def using qy by (intro pow2_split) auto
    have "rnd x \<le> P" using rnd_grid_le[of x "2 ^ nat (ilog2 y - quantum x)"] xP Px by simp
    moreover have "P \<le> rnd y" using rnd_grid_ge[of "2 ^ nat (ilog2 y - quantum y)" y] Py Pyq by simp
    ultimately show ?thesis by simp
  qed
qed

lemma rnd_mono: assumes "x \<le> y" shows "rnd x \<le> rnd y"
proof -
  consider "0 < x" | "x \<le> 0" "0 \<le> y" | "y < 0" by linarith
  then show ?thesis
  proof cases
    case 1 then show ?thesis using assms by (rule rnd_mono_pos)
  next
    case 2 then show ?thesis using rnd_nonpos[of x] rnd_nonneg[of y] by simp
  next
    case 3
    then have "0 < - y" "- y \<le> - x" using assms by auto
    then have "rnd (- y) \<le> rnd (- x)" by (rule rnd_mono_pos)
    then show ?thesis by (simp add: rnd_minus)
  qed
qed

lemma rnd_exact:
  assumes m: "\<bar>m\<bar> < 2 ^ 53" and k: "- 1074 \<le> k"
  shows "rnd (of_int m * 2 powi k) = of_int m * 2 powi k"
proof (cases "m = 0")
  case True then show ?thesis by simp
next
  case False
  define x :: rat where "x = of_int m * 2 powi k"
  have x0: "x \<noteq> 0" using False by (simp add: x_def)
  have "\<bar>x\<bar> = of_int \<bar>m\<bar> * 2 powi k" by (simp add: x_def abs_mult)
  also have "\<dots> < of_int (2 ^ 53) * 2 powi k"
    using m by (intro mult_strict_right_mono) (simp_all only: of_int_less_iff pow2_pos)
  also have "\<dots> = 2 powi (53 + k)" by (simp add: power_int_add)
  finally have "\<bar>x\<bar> < 2 powi (53 + k)" .
  then have "(2::rat) powi ilog2 x < 2 powi (53 + k)" using ilog2_bounds(1)[OF x0] by linarith
  then have "ilog2 x < 53 + k" by (simp add: pow2_less_iff)
  then have q: "quantum x \<le> k" using k by (auto simp: quantum_def)
  have pk: "(2::rat) powi k = of_int (2 ^ nat (k - quantum x)) * 2 powi quantum x"
    by (rule pow2_split[OF q])
  have "x = of_int m * 2 powi k" by (simp add: x_def)
  also have "\<dots> = of_int (m * 2 ^ nat (k - quantum x)) * 2 powi quantum x"
    by (simp only: pk of_int_mult mult.assoc)
  finally have "x = of_int (m * 2 ^ nat (k - quantum x)) * 2 powi quantum x" .
  then have "rnd x = x" by (rule rnd_grid_eq)
  then show ?thesis by (simp add: x_def)
qed

lemma rnd_exact_int: "\<bar>m\<bar> < 2 ^ 53 \<Longrightarrow> rnd (of_int m) = of_int m"
  using rnd_exact[of m 0] by simp

lemma rnd_pow2: "- 1074 \<le> k \<Longrightarrow> rnd (2 powi k) = 2 powi k"
  using rnd_exact[of 1 k] by simp

section \<open>Basic facts about the estimator\<close>

lemma bind_err_simps [simp]:
  "bind_err (Inl e) f = Inl e" "bind_err (Inr v) f = f v"
  by (simp_all add: bind_err_def)

lemma float_of_int_small: "\<bar>n\<bar> < 2 ^ 53 \<Longrightarrow> float_of_int n = Inr (Fin (of_int n))"
proof -
  assume n: "\<bar>n\<bar> < 2 ^ 53"
  then have r: "rnd (of_int n) = of_int n" by (rule rnd_exact_int)
  have "rat_of_int \<bar>n\<bar> < of_int (2 ^ 53)" using n by (simp only: of_int_less_iff)
  then have "\<bar>rat_of_int n\<bar> < 2 ^ 1024" by simp
  then show ?thesis by (simp add: float_of_int_def r)
qed

lemma bytes_to_gb_Fin: "bytes_to_gb (Fin a) = Inr (pack (a / 2 ^ 30))"
  by (simp add: bytes_to_gb_def float_of_int_small)

lemma bytes_to_gb_total: "\<exists>g. bytes_to_gb b = Inr g"
  by (cases b) (simp_all add: bytes_to_gb_def float_of_int_small)

lemma f_estimate_mode:
  assumes "f_estimate h w p opt = Inr (v, m)"
  shows "m = ''Input dimensions must be multiples of 8.'' \<and> v = Fin (- 1)
       \<or> m = (if opt then ''Optimized (Linear Scaling)'' else ''Standard (Quadratic Overhead)'')"
proof (cases "f_estimate_body h w p opt")
  case (Raised e)
  then show ?thesis using assms by (simp add: f_estimate_def)
next
  case (Returned v' m')
  then have "m' = ''Input dimensions must be multiples of 8.'' \<and> v' = Fin (- 1)"
    by (auto simp: f_estimate_body_def Let_def split: sum.splits if_splits)
  then show ?thesis using assms Returned by (simp add: f_estimate_def)
next
  case (Reached L)
  then have "mode_str L = (if opt then ''Optimized (Linear Scaling)'' else ''Standard (Quadratic Overhead)'')"
    by (auto simp: f_estimate_body_def Let_def split: sum.splits if_splits)
  moreover obtain g where "bytes_to_gb (M_peak_bytes L) = Inr g" using bytes_to_gb_total by blast
  ultimately show ?thesis using assms Reached by (simp add: f_estimate_def)
qed


section \<open>Evaluating the float operations on exact values\<close>

lemma rnd_abs_le_pow2:
  assumes "\<bar>x\<bar> \<le> 2 powi k" "- 1074 \<le> k"
  shows "\<bar>rnd x\<bar> \<le> 2 powi k"
proof -
  have p: "rnd (2 powi k) = 2 powi k" using assms(2) by (rule rnd_pow2)
  have "rnd x \<le> rnd (2 powi k)" using assms(1) by (intro rnd_mono) linarith
  moreover have "rnd (- (2 powi k)) \<le> rnd x" using assms(1) by (intro rnd_mono) linarith
  ultimately have "rnd x \<le> 2 powi k" "- (2 powi k) \<le> rnd x" unfolding rnd_minus p by simp_all
  then show ?thesis by linarith
qed

lemma rnd_abs_lt_overflow: "\<bar>x\<bar> \<le> 2 ^ 1023 \<Longrightarrow> \<bar>rnd x\<bar> < 2 ^ 1024"
proof -
  assume a: "\<bar>x\<bar> \<le> 2 ^ 1023"
  have "\<bar>rnd x\<bar> \<le> 2 powi 1023" using a by (intro rnd_abs_le_pow2) simp_all
  then have "\<bar>rnd x\<bar> \<le> 2 ^ 1023" by simp
  moreover have "(2::rat) ^ 1023 < 2 ^ 1024" by (intro power_strict_increasing) auto
  ultimately show ?thesis by linarith
qed

lemma pack_Fin: "\<bar>rnd x\<bar> < 2 ^ 1024 \<Longrightarrow> pack x = Fin (rnd x)"
  by (auto simp: pack_def Let_def abs_if split: if_splits)

lemma small_lt_overflow: "\<bar>m\<bar> < (2::int) ^ 53 \<Longrightarrow> \<bar>rat_of_int m\<bar> \<le> 2 ^ 1023"
proof -
  assume "\<bar>m\<bar> < (2::int) ^ 53"
  then have "rat_of_int \<bar>m\<bar> < of_int (2 ^ 53)" by (simp only: of_int_less_iff)
  moreover have "(2::rat) ^ 53 \<le> 2 ^ 1023" by (intro power_increasing) auto
  ultimately show ?thesis by simp
qed

lemma pack_exact_int: "\<bar>m\<bar> < 2 ^ 53 \<Longrightarrow> pack (of_int m) = Fin (of_int m)"
  using pack_Fin[of "of_int m"] rnd_abs_lt_overflow[OF small_lt_overflow, of m]
  by (simp add: rnd_exact_int)

lemma pack_numeral: "numeral n < (2::int) ^ 53 \<Longrightarrow> pack (numeral n) = Fin (numeral n)"
  using pack_exact_int[of "numeral n"] by simp

lemma int_truediv_exact:
  assumes "b \<noteq> 0" "b dvd a" "\<bar>a div b\<bar> < 2 ^ 53"
  shows "int_truediv a b = Inr (Fin (of_int (a div b)))"
proof -
  have q: "rat_of_int a / of_int b = of_int (a div b)"
    using assms(1,2) by (metis of_int_divide_in_Ints of_int_div Ints_cases dvd_div_mult_self nonzero_mult_div_cancel_right of_int_eq_0_iff of_int_mult)
  have r: "rnd (of_int (a div b)) = of_int (a div b)" using assms(3) by (rule rnd_exact_int)
  have "\<bar>rat_of_int (a div b)\<bar> < 2 ^ 1024"
    using rnd_abs_lt_overflow[OF small_lt_overflow[OF assms(3)]] r by simp
  then show ?thesis using assms(1) by (simp add: int_truediv_def q r Let_def)
qed

lemma fdiv_gb_exact:
  assumes "\<bar>m\<bar> < 2 ^ 53"
  shows "bytes_to_gb (Fin (of_int m)) = Inr (Fin (of_int m / 2 ^ 30))"
proof -
  have e: "rat_of_int m / 2 ^ 30 = of_int m * 2 powi (- 30)" by (simp add: power_int_minus field_simps)
  have r: "rnd (rat_of_int m / 2 ^ 30) = of_int m / 2 ^ 30"
    unfolding e using assms by (intro rnd_exact) auto
  have "\<bar>rat_of_int m / 2 ^ 30\<bar> \<le> \<bar>rat_of_int m\<bar>" by (simp add: field_simps abs_mult mult_le_cancel_left1 flip: abs_divide) 
  then have "\<bar>rat_of_int m / 2 ^ 30\<bar> \<le> 2 ^ 1023" using small_lt_overflow[OF assms] by linarith
  then have "\<bar>rnd (rat_of_int m / 2 ^ 30)\<bar> < 2 ^ 1024" by (rule rnd_abs_lt_overflow)
  then have "pack (rat_of_int m / 2 ^ 30) = Fin (rat_of_int m / 2 ^ 30)"
    using pack_Fin[of "rat_of_int m / 2 ^ 30"] unfolding r by simp
  then show ?thesis unfolding bytes_to_gb_Fin by simp
qed


lemma rnd_dyadic30: "\<bar>m\<bar> < 2 ^ 53 \<Longrightarrow> rnd (of_int m / 2 ^ 30) = of_int m / 2 ^ 30"
proof -
  assume m: "\<bar>m\<bar> < 2 ^ 53"
  have e: "rat_of_int m / 2 ^ 30 = of_int m * 2 powi (- 30)" by (simp add: power_int_minus field_simps)
  show ?thesis unfolding e using m by (intro rnd_exact) auto
qed

lemma dyadic30_lt_overflow: "\<bar>m\<bar> < (2::int) ^ 53 \<Longrightarrow> \<bar>rat_of_int m / 2 ^ 30\<bar> \<le> 2 ^ 1023"
proof -
  assume m: "\<bar>m\<bar> < (2::int) ^ 53"
  have "\<bar>rat_of_int m / 2 ^ 30\<bar> = \<bar>rat_of_int m\<bar> / 2 ^ 30" by simp
  also have "\<dots> \<le> \<bar>rat_of_int m\<bar>" by (simp add: field_simps mult_le_cancel_left1)
  finally show ?thesis using small_lt_overflow[OF m] by linarith
qed

lemma pack_dyadic30: "\<bar>m\<bar> < 2 ^ 53 \<Longrightarrow> pack (of_int m / 2 ^ 30) = Fin (of_int m / 2 ^ 30)"
proof -
  assume m: "\<bar>m\<bar> < 2 ^ 53"
  show ?thesis
    using pack_Fin[OF rnd_abs_lt_overflow[OF dyadic30_lt_overflow[OF m]]]
    unfolding rnd_dyadic30[OF m] .
qed

lemma bytes_to_gb_int_exact:
  "\<bar>m\<bar> < 2 ^ 53 \<Longrightarrow> bytes_to_gb_int m = Inr (Fin (of_int m / 2 ^ 30))"
proof -
  assume m: "\<bar>m\<bar> < 2 ^ 53"
  have "\<bar>rat_of_int m / 2 ^ 30\<bar> < 2 ^ 1024"
    using rnd_abs_lt_overflow[OF dyadic30_lt_overflow[OF m]] unfolding rnd_dyadic30[OF m] .
  moreover have "rnd (rat_of_int m / of_int (1024 ^ 3)) = of_int m / 2 ^ 30"
    using rnd_dyadic30[OF m] by simp
  ultimately show ?thesis unfolding bytes_to_gb_int_def int_truediv_def Let_def by simp
qed

lemma rhe_unique:
  assumes "of_int n - 1 / 2 < x" "x < of_int n + 1 / 2"
  shows "rhe x = n"
proof -
  have "\<bar>rat_of_int (rhe x) - x\<bar> \<le> 1 / 2" by (rule rhe_err)
  then have "\<bar>rat_of_int (rhe x) - of_int n\<bar> < 1" using assms by linarith
  then have "\<bar>rat_of_int (rhe x - n)\<bar> < 1" by simp
  then have "\<bar>rhe x - n\<bar> < 1" by (metis of_int_abs of_int_less_1_iff)
  then show ?thesis by linarith
qed

lemma hundredths_unique:
  "of_int n - 1 / 2 < x * 100 \<Longrightarrow> x * 100 < of_int n + 1 / 2 \<Longrightarrow> hundredths x = n"
  unfolding hundredths_def by (rule rhe_unique)

lemma py_round2_Fin:
  "\<bar>rat_of_int (hundredths a) / 100\<bar> \<le> 2 ^ 1023 \<Longrightarrow>
   py_round2 (Fin a) = Inr (Fin (rnd (of_int (hundredths a) / 100)))"
  using rnd_abs_lt_overflow[of "rat_of_int (hundredths a) / 100"] by (simp add: Let_def)

lemma fixed_cost_gb_value:
  "bytes_to_gb_int (C_WEIGHTS_BYTES + C_OVERHEAD_BYTES) = Inr (Fin (2632400000 / 2 ^ 30))"
  using bytes_to_gb_int_exact[of 2632400000] by (simp add: C_WEIGHTS_BYTES_def C_OVERHEAD_BYTES_def)

lemma hundredths_fixed: "hundredths (2632400000 / 2 ^ 30) = 245"
  by (rule hundredths_unique) simp_all

lemma rnd_eval:
  assumes "2 powi e \<le> \<bar>x\<bar>" "\<bar>x\<bar> < 2 powi (e + 1)" "q = max (e - 52) (- 1074)"
    "rhe (x / 2 powi q) = n"
  shows "rnd x = of_int n * 2 powi q"
proof -
  have "ilog2 x = e" using assms(1,2) by (rule ilog2_unique)
  then have "quantum x = q" by (simp add: quantum_def assms(3))
  moreover have "x \<noteq> 0" using assms(1) by (metis abs_0 not_le pow2_pos)
  ultimately show ?thesis by (simp add: rnd_def assms(4))
qed

lemma rhe_tie_even: "even n \<Longrightarrow> rhe (of_int n + 1 / 2) = n"
proof -
  assume e: "even n"
  have f: "\<lfloor>rat_of_int n + 1 / 2\<rfloor> = n" by linarith
  show ?thesis unfolding rhe_def Let_def f using e by simp
qed

lemma rhe_tie_odd: "odd n \<Longrightarrow> rhe (of_int n + 1 / 2) = n + 1"
proof -
  assume e: "odd n"
  have f: "\<lfloor>rat_of_int n + 1 / 2\<rfloor> = n" by linarith
  show ?thesis unfolding rhe_def Let_def f using e by simp
qed

lemma pack_exact:
  assumes "\<bar>m\<bar> < 2 ^ 53" "k \<le> 970"
  shows "pack (of_int m * 2 ^ k) = Fin (of_int m * 2 ^ k)"
proof -
  have e: "rat_of_int m * 2 ^ k = of_int m * 2 powi (int k)" by simp
  have r: "rnd (rat_of_int m * 2 ^ k) = of_int m * 2 ^ k"
    unfolding e using assms(1) by (intro rnd_exact) auto
  have "rat_of_int \<bar>m\<bar> < of_int (2 ^ 53)" using assms(1) by (simp only: of_int_less_iff)
  then have "\<bar>rat_of_int m\<bar> \<le> 2 ^ 53" by simp
  then have "\<bar>rat_of_int m\<bar> * 2 ^ k \<le> 2 ^ 53 * 2 ^ k" by (intro mult_right_mono) auto
  also have "\<dots> = 2 ^ (53 + k)" by (simp add: power_add)
  also have "\<dots> \<le> (2::rat) ^ 1023" using assms(2) by (intro power_increasing) auto
  finally have "\<bar>rat_of_int m * 2 ^ k\<bar> \<le> 2 ^ 1023" by (simp add: abs_mult)
  then have "\<bar>rnd (rat_of_int m * 2 ^ k)\<bar> < 2 ^ 1024" by (rule rnd_abs_lt_overflow)
  then show ?thesis using pack_Fin[of "rat_of_int m * 2 ^ k"] unfolding r by simp
qed

subsection \<open>Where rounding overflows\<close>

lemma ilog2_pow2 [simp]: "ilog2 (2 powi k) = k"
  by (rule ilog2_unique) (simp_all add: pow2_less_iff)

lemma ilog2_ge: "2 powi k \<le> \<bar>x\<bar> \<Longrightarrow> k \<le> ilog2 x"
  using ilog2_mono[of "2 powi k" x] by simp

lemma ilog2_lt: "x \<noteq> 0 \<Longrightarrow> \<bar>x\<bar> < 2 powi k \<Longrightarrow> ilog2 x < k"
  using ilog2_bounds(1)[of x] pow2_less_iff[of "ilog2 x" k] by linarith

lemma ilog2_abs [simp]: "ilog2 \<bar>x\<bar> = ilog2 x"
  by (simp add: ilog2_def)

lemma quantum_abs [simp]: "quantum \<bar>x\<bar> = quantum x"
  by (simp add: quantum_def)

lemma rnd_int: "\<exists>n. rnd (of_int k) = of_int n"
proof (cases "\<bar>k\<bar> < 2 ^ 53")
  case True
  then show ?thesis using rnd_exact_int by blast
next
  case False
  then have "(2::int) ^ 53 \<le> \<bar>k\<bar>" by simp
  then have "rat_of_int (2 ^ 53) \<le> of_int \<bar>k\<bar>" by (simp only: of_int_le_iff)
  then have "2 powi 53 \<le> \<bar>rat_of_int k\<bar>" by simp
  then have "53 \<le> ilog2 (of_int k)" by (rule ilog2_ge)
  then have q: "0 \<le> quantum (of_int k)" by (simp add: quantum_def)
  have k0: "rat_of_int k \<noteq> 0" using False by auto
  define r where "r = rhe (of_int k / 2 powi quantum (of_int k))"
  have "rnd (of_int k) = of_int r * 2 ^ nat (quantum (of_int k))"
    using k0 q by (simp add: rnd_def r_def power_int_nonneg_exp)
  also have "\<dots> = of_int (r * 2 ^ nat (quantum (of_int k)))" by simp
  finally show ?thesis by blast
qed

lemma rnd_midpoint_overflow: "rnd (2 ^ 1024 - 2 ^ 970) = 2 ^ 1024"
proof -
  have e: "((2::rat) ^ 1024 - 2 ^ 970) / 2 powi 971 = of_int (2 ^ 53 - 1) + 1 / 2"
    by simp
  have "rhe (((2::rat) ^ 1024 - 2 ^ 970) / 2 powi 971) = 2 ^ 53 - 1 + 1"
    unfolding e by (rule rhe_tie_odd) simp
  then have h: "rhe (((2::rat) ^ 1024 - 2 ^ 970) / 2 powi 971) = 2 ^ 53" by simp
  have "rnd (2 ^ 1024 - 2 ^ 970) = of_int (2 ^ 53) * 2 powi 971"
    by (rule rnd_eval[where e = 1023 and q = 971]) (use h in simp_all)
  then show ?thesis by simp
qed

lemma rnd_below_midpoint:
  assumes "\<bar>x\<bar> < 2 ^ 1024 - 2 ^ 970"
  shows "\<bar>rnd x\<bar> < 2 ^ 1024"
proof (cases "\<bar>x\<bar> \<le> 2 ^ 1023")
  case True
  then show ?thesis by (rule rnd_abs_lt_overflow)
next
  case False
  then have lo: "2 powi 1023 \<le> \<bar>x\<bar>" by simp
  have hi: "\<bar>x\<bar> < 2 powi (1023 + 1)" using assms by simp
  have il: "ilog2 x = 1023" using lo hi by (rule ilog2_unique)
  have q: "quantum x = 971" by (simp add: quantum_def il)
  have x0: "x \<noteq> 0" using False by auto
  define y where "y = \<bar>x\<bar> / 2 powi 971"
  have "y < 2 ^ 53 - 1 / 2" using assms by (simp add: y_def)
  moreover have "rat_of_int (rhe y) \<le> y + 1 / 2" using rhe_err[of y] by linarith
  ultimately have "rat_of_int (rhe y) < of_int (2 ^ 53)" by simp
  then have "rhe y < 2 ^ 53" by (simp only: of_int_less_iff)
  then have "rhe y \<le> 2 ^ 53 - 1" by simp
  then have "rat_of_int (rhe y) \<le> of_int (2 ^ 53 - 1)" by (simp only: of_int_le_iff)
  then have "rat_of_int (rhe y) * 2 powi 971 \<le> of_int (2 ^ 53 - 1) * 2 powi 971"
    by (intro mult_right_mono) auto
  also have "\<dots> < 2 ^ 1024" by simp
  finally have b: "rat_of_int (rhe y) * 2 powi 971 < 2 ^ 1024" .
  have ax: "\<bar>x\<bar> \<noteq> 0" using x0 by simp
  have "rnd \<bar>x\<bar> = rat_of_int (rhe y) * 2 powi 971"
    using ax q by (simp add: rnd_def y_def)
  moreover have "\<bar>rnd x\<bar> = rnd \<bar>x\<bar>"
    using rnd_minus[of x] rnd_nonneg[of x] rnd_nonpos[of x] by (cases "0 \<le> x") (auto simp: abs_if)
  ultimately show ?thesis using b by simp
qed

lemma rnd_abs: "\<bar>rnd x\<bar> = rnd \<bar>x\<bar>"
  using rnd_minus[of x] rnd_nonneg[of x] rnd_nonpos[of x] by (cases "0 \<le> x") (auto simp: abs_if)

lemma rnd_overflow_iff: "2 ^ 1024 \<le> \<bar>rnd x\<bar> \<longleftrightarrow> 2 ^ 1024 - 2 ^ 970 \<le> \<bar>x\<bar>"
proof
  assume "2 ^ 1024 \<le> \<bar>rnd x\<bar>"
  then show "2 ^ 1024 - 2 ^ 970 \<le> \<bar>x\<bar>" using rnd_below_midpoint[of x] by linarith
next
  assume "2 ^ 1024 - 2 ^ 970 \<le> \<bar>x\<bar>"
  then have "rnd (2 ^ 1024 - 2 ^ 970) \<le> rnd \<bar>x\<bar>" by (rule rnd_mono)
  then show "2 ^ 1024 \<le> \<bar>rnd x\<bar>" unfolding rnd_midpoint_overflow rnd_abs .
qed

lemma float_of_int_cases:
  "float_of_int n = (if 2 ^ 1024 - 2 ^ 970 \<le> \<bar>n\<bar> then Inl OverflowError
                     else Inr (Fin (rnd (of_int n))))"
proof -
  have "(2 ^ 1024 - 2 ^ 970 \<le> \<bar>rat_of_int n\<bar>) = (2 ^ 1024 - 2 ^ 970 \<le> \<bar>n\<bar>)"
  proof -
    have "(of_int (2 ^ 1024 - 2 ^ 970) \<le> rat_of_int \<bar>n\<bar>) = (2 ^ 1024 - 2 ^ 970 \<le> \<bar>n\<bar>)"
      by (simp only: of_int_le_iff)
    then show ?thesis by simp
  qed
  then show ?thesis unfolding float_of_int_def Let_def rnd_overflow_iff by simp
qed

lemma int_truediv_8_cases:
  "int_truediv h 8 = (if 2 ^ 1027 - 2 ^ 973 \<le> \<bar>h\<bar> then Inl OverflowError
                      else Inr (Fin (rnd (of_int h / 8))))"
proof -
  have "(2 ^ 1024 - 2 ^ 970 \<le> \<bar>rat_of_int h / 8\<bar>) = (2 ^ 1027 - 2 ^ 973 \<le> \<bar>h\<bar>)"
  proof -
    have "(of_int (2 ^ 1027 - 2 ^ 973) \<le> rat_of_int \<bar>h\<bar>) = (2 ^ 1027 - 2 ^ 973 \<le> \<bar>h\<bar>)"
      by (simp only: of_int_le_iff)
    then show ?thesis by (simp add: field_simps)
  qed
  then show ?thesis unfolding int_truediv_def Let_def rnd_overflow_iff by simp
qed

section \<open>The estimator on multiples of 8\<close>

lemma bytes_to_gb_eq: "bytes_to_gb b = Inr (to_gb b)"
  by (cases b) (simp_all add: bytes_to_gb_def float_of_int_small to_gb_def)

lemma of_int_div_8: "8 dvd h \<Longrightarrow> rat_of_int h / 8 = of_int (h div 8)"
  by (auto simp: dvd_def)

lemma int_of_float_integer: "int_of_float (Fin (of_int n)) = Inr n"
  by simp

lemma f_estimate_divisible:
  assumes "8 dvd h" "8 dvd w"
  shows "f_estimate h w p opt =
    (if 2 ^ 1027 - 2 ^ 973 \<le> \<bar>h\<bar> \<or> 2 ^ 1027 - 2 ^ 973 \<le> \<bar>w\<bar>
        \<or> 2 ^ 1024 - 2 ^ 970 \<le> \<bar>2632400000 + 3072 * p\<bar>
     then Inl OverflowError
     else Inr (estimate_gb (rnd (of_int (h div 8))) (rnd (of_int (w div 8)))
                 (rnd (of_int (2632400000 + 3072 * p))) opt, mode_description opt))"
proof -
  obtain a where a: "rnd (of_int (h div 8)) = of_int a" using rnd_int by blast
  obtain b where b: "rnd (of_int (w div 8)) = of_int b" using rnd_int by blast
  show ?thesis
    unfolding f_estimate_def f_estimate_body_def Let_def int_truediv_8_cases
      float_of_int_cases of_int_div_8[OF assms(1)] of_int_div_8[OF assms(2)] a b
      C_WEIGHTS_BYTES_def C_OVERHEAD_BYTES_def C_L_FACTOR_def
    by (simp add: fl_ne_int_def bytes_to_gb_eq estimate_gb_def peak_activation_def
        mode_description_def)
qed

section \<open>Order and monotonicity of the float operations\<close>

lemma fl_le_refl: "x \<noteq> NaN \<Longrightarrow> fl_le x x"
  by (cases x) simp_all

lemma fl_le_trans: "fl_le x y \<Longrightarrow> fl_le y z \<Longrightarrow> fl_le x z"
  by (cases x; cases y; cases z) simp_all

lemma fl_le_not_NaN: "fl_le x y \<Longrightarrow> x \<noteq> NaN \<and> y \<noteq> NaN"
  by (cases x; cases y) simp_all

lemma pack_not_NaN [simp]: "pack x \<noteq> NaN"
  by (simp add: pack_def Let_def)

lemma pack_mono: "x \<le> y \<Longrightarrow> fl_le (pack x) (pack y)"
  using rnd_mono[of x y] by (auto simp: pack_def Let_def)

lemma pack_0 [simp]: "pack 0 = Fin 0"
  by (simp add: pack_def)

lemma pack_nonneg: "0 \<le> x \<Longrightarrow> fl_le (Fin 0) (pack x)"
  using pack_mono[of 0 x] by simp

lemma pack_cases: "pack x = PInf \<or> pack x = NInf \<or> (pack x = Fin (rnd x) \<and> \<bar>rnd x\<bar> < 2 ^ 1024)"
  by (auto simp: pack_def Let_def)

lemma nonneg_cases: "fl_le (Fin 0) x \<Longrightarrow> x = PInf \<or> (\<exists>a. x = Fin a \<and> 0 \<le> a)"
  by (cases x) simp_all

lemma fmul_const_mono:
  assumes "0 < c" "fl_le x y"
  shows "fl_le (fmul x (Fin c)) (fmul y (Fin c))"
proof (cases x; cases y)
  fix a b assume "x = Fin a" "y = Fin b"
  then show ?thesis using assms by (simp add: pack_mono)
qed (use assms in \<open>auto simp: pack_def Let_def\<close>)

lemma fmul_const_nonneg: "0 < c \<Longrightarrow> fl_le (Fin 0) x \<Longrightarrow> fl_le (Fin 0) (fmul x (Fin c))"
  using fmul_const_mono[of c "Fin 0" x] by simp

lemma fadd_mono:
  assumes "fl_le (Fin 0) x" "fl_le (Fin 0) y" "fl_le x x'" "fl_le y y'"
  shows "fl_le (fadd x y) (fadd x' y')"
proof -
  have nn: "fl_le (Fin 0) x'" "fl_le (Fin 0) y'" using assms fl_le_trans by blast+
  consider "x' = PInf" | "y' = PInf" | a' b' where "x' = Fin a'" "y' = Fin b'"
    using nonneg_cases[OF nn(1)] nonneg_cases[OF nn(2)] by blast
  then show ?thesis
  proof cases
    case 1
    then have "fadd x' y' = PInf" using nonneg_cases[OF nn(2)] by auto
    moreover have "fadd x y \<noteq> NaN" using nonneg_cases[OF assms(1)] nonneg_cases[OF assms(2)] by auto
    ultimately show ?thesis by (cases "fadd x y") simp_all
  next
    case 2
    then have "fadd x' y' = PInf" using nonneg_cases[OF nn(1)] by auto
    moreover have "fadd x y \<noteq> NaN" using nonneg_cases[OF assms(1)] nonneg_cases[OF assms(2)] by auto
    ultimately show ?thesis by (cases "fadd x y") simp_all
  next
    case 3
    obtain a where a: "x = Fin a" using assms(3) 3(1) nonneg_cases[OF assms(1)] by auto
    obtain b where b: "y = Fin b" using assms(4) 3(2) nonneg_cases[OF assms(2)] by auto
    show ?thesis using assms(3,4) unfolding a b 3 by (simp add: pack_mono)
  qed
qed

lemma fadd_nonneg: "fl_le (Fin 0) x \<Longrightarrow> fl_le (Fin 0) y \<Longrightarrow> fl_le (Fin 0) (fadd x y)"
  using fadd_mono[of "Fin 0" "Fin 0" x y] by simp

lemma peak_activation_mono:
  assumes "fl_le (Fin 0) n" "fl_le n n'"
  shows "fl_le (peak_activation n opt) (peak_activation n' opt)"
proof -
  have c: "(0::rat) < (if opt then 1 else 5 / 4)" by simp
  have m: "fmul u (if opt then Fin 1 else K_ATTN_STANDARD_MULTIPLIER)
            = fmul u (Fin (if opt then 1 else 5 / 4))" for u
    by (simp add: K_ATTN_STANDARD_MULTIPLIER_def)
  show ?thesis unfolding peak_activation_def m K_ITER_BASE_def
    by (intro fadd_mono fmul_const_mono fmul_const_nonneg assms c) simp_all
qed

lemma peak_activation_0: "peak_activation (Fin 0) opt = Fin 0"
  by (simp add: peak_activation_def K_ATTN_STANDARD_MULTIPLIER_def)

lemma peak_activation_nonneg: "fl_le (Fin 0) n \<Longrightarrow> fl_le (Fin 0) (peak_activation n opt)"
  using peak_activation_mono[of "Fin 0" n opt] by (simp add: peak_activation_0)

lemma to_gb_mono: "fl_le x y \<Longrightarrow> fl_le (to_gb x) (to_gb y)"
proof (cases x; cases y)
  fix a b assume "x = Fin a" "y = Fin b" "fl_le x y"
  then show ?thesis by (simp add: to_gb_def pack_mono divide_right_mono)
next
  fix a assume "x = Fin a" "y = PInf"
  then show ?thesis using pack_not_NaN[of "a / 2 ^ 30"] by (cases "pack (a / 2 ^ 30)") (simp_all add: to_gb_def)
next
  fix b assume "x = NInf" "y = Fin b"
  then show ?thesis using pack_not_NaN[of "b / 2 ^ 30"] by (cases "pack (b / 2 ^ 30)") (simp_all add: to_gb_def)
qed (simp_all add: to_gb_def)

lemma estimate_gb_mono:
  assumes "0 \<le> a" "a \<le> a'" "0 \<le> b" "0 \<le> base"
  shows "fl_le (estimate_gb a b base opt) (estimate_gb a' b base opt)"
  unfolding estimate_gb_def
proof (intro to_gb_mono fadd_mono peak_activation_mono peak_activation_nonneg)
  show "fl_le (Fin 0) (fmul (Fin a) (Fin b))" "fl_le (Fin 0) (fmul (Fin a) (Fin b))"
    using assms by (simp_all add: pack_nonneg)
  show "fl_le (fmul (Fin a) (Fin b)) (fmul (Fin a') (Fin b))"
    using assms by (simp add: pack_mono mult_right_mono)
qed (use assms in simp_all)

subsection \<open>The estimate is a number\<close>

lemma pack_minus: "pack (- x) = fneg (pack x)"
  by (auto simp: pack_def Let_def rnd_minus)

lemma fmul_fneg_const: "fmul (fneg x) (Fin c) = fneg (fmul x (Fin c))"
  by (cases x) (simp_all add: pack_minus flip: minus_mult_left)

lemma fadd_fneg: "fadd (fneg x) (fneg y) = fneg (fadd x y)"
proof (cases x; cases y)
  fix a b assume "x = Fin a" "y = Fin b"
  then show ?thesis using pack_minus[of "a + b"] by simp
qed simp_all

lemma peak_activation_fneg: "peak_activation (fneg n) opt = fneg (peak_activation n opt)"
  by (simp add: peak_activation_def K_ATTN_STANDARD_MULTIPLIER_def fmul_fneg_const fadd_fneg)

lemma fneg_NaN_iff [simp]: "fneg x = NaN \<longleftrightarrow> x = NaN"
  by (cases x) simp_all

lemma peak_activation_not_NaN: "n \<noteq> NaN \<Longrightarrow> peak_activation n opt \<noteq> NaN"
proof -
  assume n: "n \<noteq> NaN"
  have "fl_le (Fin 0) n \<or> fl_le (Fin 0) (fneg n)" using n by (cases n) auto
  then show ?thesis
  proof
    assume "fl_le (Fin 0) n"
    then show ?thesis using peak_activation_nonneg fl_le_not_NaN by blast
  next
    assume "fl_le (Fin 0) (fneg n)"
    then have "peak_activation (fneg n) opt \<noteq> NaN"
      using peak_activation_nonneg fl_le_not_NaN by blast
    then show ?thesis by (simp add: peak_activation_fneg)
  qed
qed

lemma estimate_gb_not_NaN: "estimate_gb a b c opt \<noteq> NaN"
proof -
  have "peak_activation (fmul (Fin a) (Fin b)) opt \<noteq> NaN"
    by (rule peak_activation_not_NaN) simp
  then have "fadd (Fin c) (peak_activation (fmul (Fin a) (Fin b)) opt) \<noteq> NaN"
    by (cases "peak_activation (fmul (Fin a) (Fin b)) opt") simp_all
  then show ?thesis unfolding estimate_gb_def
    by (cases "fadd (Fin c) (peak_activation (fmul (Fin a) (Fin b)) opt)") (simp_all add: to_gb_def)
qed


section \<open>Rounding to two decimals\<close>

lemma rnd_err_below_2_46:
  assumes "\<bar>y\<bar> < 2 ^ 46"
  shows "\<bar>rnd y - y\<bar> \<le> 1 / 256"
proof (cases "y = 0")
  case True then show ?thesis by simp
next
  case False
  have "\<bar>y\<bar> < 2 powi 46" using assms by simp
  then have "ilog2 y < 46" using False by (intro ilog2_lt)
  then have "quantum y \<le> - 7" by (simp add: quantum_def)
  then have "(2::rat) powi quantum y \<le> 2 powi (- 7)" by (simp only: pow2_le_iff)
  moreover have "(2::rat) powi (- 7) = 1 / 128" by (simp add: power_int_minus)
  ultimately have "(2::rat) powi quantum y / 2 \<le> 1 / 256" by simp
  then show ?thesis using rnd_err[of y] by linarith
qed

lemma hundredths_err: "\<bar>rat_of_int (hundredths x) - x * 100\<bar> \<le> 1 / 2"
  unfolding hundredths_def by (rule rhe_err)

lemma rnd_abs_ge_pow2:
  assumes "2 powi k \<le> \<bar>y\<bar>" "- 1074 \<le> k"
  shows "2 powi k \<le> \<bar>rnd y\<bar>"
proof -
  have "rnd (2 powi k) \<le> rnd \<bar>y\<bar>" using assms(1) by (rule rnd_mono)
  then show ?thesis unfolding rnd_abs rnd_pow2[OF assms(2)] .
qed

lemma hundredths_rnd:
  assumes "\<bar>rat_of_int c / 100\<bar> < 2 ^ 46"
  shows "hundredths (rnd (of_int c / 100)) = c"
proof (rule hundredths_unique)
  have "\<bar>rnd (of_int c / 100) - of_int c / 100\<bar> \<le> 1 / 256"
    using assms by (rule rnd_err_below_2_46)
  then show "rat_of_int c - 1 / 2 < rnd (rat_of_int c / 100) * 100"
    "rnd (rat_of_int c / 100) * 100 < rat_of_int c + 1 / 2"
    by linarith+
qed

lemma hundredths_display_bound:
  assumes v: "\<bar>v\<bar> \<le> 2 ^ 45 + 1"
  defines "fx \<equiv> 2632400000 / 2 ^ 30 :: rat"
  shows "\<bar>hundredths (rnd (v - fx)) - (hundredths v - 245)\<bar> \<le> 1"
proof -
  have fx: "fx * 100 - 245 \<le> 1 / 5" "0 \<le> fx * 100 - 245" "0 \<le> fx" "fx \<le> 3"
    by (simp_all add: fx_def)
  have "\<bar>v - fx\<bar> < 2 ^ 46" using v fx(3,4) by (simp add: abs_if split: if_splits)
  then have d: "\<bar>rnd (v - fx) - (v - fx)\<bar> \<le> 1 / 256" by (rule rnd_err_below_2_46)
  note s = hundredths_err[of "rnd (v - fx)"] and p = hundredths_err[of v]
  have "\<bar>rat_of_int (hundredths (rnd (v - fx))) - (of_int (hundredths v) - 245)\<bar> < 2"
    using d s p fx(1,2) by linarith
  then have "\<bar>rat_of_int (hundredths (rnd (v - fx)) - (hundredths v - 245))\<bar> < of_int 2"
    by simp
  then have "\<bar>hundredths (rnd (v - fx)) - (hundredths v - 245)\<bar> < 2"
    by (simp only: of_int_less_iff flip: of_int_abs)
  then show ?thesis by simp
qed

lemma py_round2_Fin_D:
  assumes "py_round2 g = Inr (Fin p)"
  shows "\<exists>v. g = Fin v \<and> p = rnd (of_int (hundredths v) / 100)"
  using assms by (cases g) (auto simp: Let_def split: if_splits)

lemma py_round2_Fin_Fin_D:
  "py_round2 (Fin c) = Inr (Fin f) \<Longrightarrow> f = rnd (of_int (hundredths c) / 100)"
  by (auto simp: Let_def split: if_splits)

lemma endpoint_success_D:
  assumes "estimate_vram_endpoint r = Inr (Success s)"
  shows "\<exists>g. f_estimate (height r) (width r) (prompt_length r) (optimization r)
               = Inr (g, attention_mode s)
     \<and> py_round2 g = Inr (predicted_vram_gb s)
     \<and> py_round2 (Fin (2632400000 / 2 ^ 30)) = Inr (fixed_cost_gb s)
     \<and> py_round2 (fsub g (Fin (2632400000 / 2 ^ 30))) = Inr (spatial_cost_gb s)"
proof -
  obtain g m where gm: "f_estimate (height r) (width r) (prompt_length r) (optimization r)
               = Inr (g, m)"
    using assms unfolding estimate_vram_endpoint_def
    by (cases "f_estimate (height r) (width r) (prompt_length r) (optimization r)")
       (auto split: if_splits)
  show ?thesis
    using assms unfolding estimate_vram_endpoint_def gm fixed_cost_gb_value
    by (auto simp: bind_err_def split: if_splits sum.splits)
qed

lemma rnd_abs_lt_pow2_D:
  assumes "\<bar>rnd y\<bar> < 2 powi k" "- 1074 \<le> k"
  shows "\<bar>y\<bar> < 2 powi k"
  using rnd_abs_ge_pow2[of k y] assms by linarith

lemma displayed_hundredths:
  assumes p: "py_round2 g = Inr (Fin p)" "\<bar>p\<bar> < 2 ^ 45"
    and f: "py_round2 (Fin (2632400000 / 2 ^ 30)) = Inr (Fin f)"
    and sp: "py_round2 (fsub g (Fin (2632400000 / 2 ^ 30))) = Inr (Fin sp)"
  shows "\<bar>hundredths sp - (hundredths p - hundredths f)\<bar> \<le> 1"
proof -
  define fx :: rat where "fx = 2632400000 / 2 ^ 30"
  obtain v where v: "g = Fin v" "p = rnd (of_int (hundredths v) / 100)"
    using py_round2_Fin_D[OF p(1)] by blast
  have "\<bar>rnd (of_int (hundredths v) / 100)\<bar> < 2 powi 45" using p(2) v(2) by simp
  then have hv: "\<bar>rat_of_int (hundredths v) / 100\<bar> < 2 powi 45"
    by (rule rnd_abs_lt_pow2_D) simp
  then have hv': "\<bar>rat_of_int (hundredths v) / 100\<bar> < 2 ^ 46" by simp
  have hp: "hundredths p = hundredths v" unfolding v(2) using hv' by (rule hundredths_rnd)
  have vb: "\<bar>v\<bar> \<le> 2 ^ 45 + 1" using hv hundredths_err[of v] by (simp add: abs_if split: if_splits)
  have "f = rnd (of_int 245 / 100)"
    using py_round2_Fin_Fin_D[OF f] unfolding hundredths_fixed .
  then have hf: "hundredths f = 245" using hundredths_rnd[of 245] by simp
  have fxb: "0 \<le> fx" "fx \<le> 3" by (simp_all add: fx_def)
  have db: "\<bar>v - fx\<bar> \<le> 2 ^ 45 + 4" using vb fxb by (simp add: abs_if split: if_splits)
  then have "\<bar>v - fx\<bar> \<le> 2 ^ 1023" by simp
  then have "\<bar>rnd (v - fx)\<bar> < 2 ^ 1024" by (rule rnd_abs_lt_overflow)
  then have sub: "fsub g (Fin (2632400000 / 2 ^ 30)) = Fin (rnd (v - fx))"
    unfolding v(1) fsub_def fx_def using pack_Fin[of "v - 2632400000 / 2 ^ 30"] by simp
  have spv: "sp = rnd (of_int (hundredths (rnd (v - fx))) / 100)"
    using py_round2_Fin_Fin_D[OF sp[unfolded sub]] .
  have "\<bar>v - fx\<bar> < 2 ^ 46" using db by simp
  then have "\<bar>rnd (v - fx) - (v - fx)\<bar> \<le> 1 / 256" by (rule rnd_err_below_2_46)
  then have "\<bar>rnd (v - fx)\<bar> \<le> 2 ^ 45 + 5" using db by linarith
  then have "\<bar>rat_of_int (hundredths (rnd (v - fx))) / 100\<bar> < 2 ^ 46"
    using hundredths_err[of "rnd (v - fx)"] by (simp add: abs_if split: if_splits)
  then have hs: "hundredths sp = hundredths (rnd (v - fx))" unfolding spv by (rule hundredths_rnd)
  show ?thesis unfolding hs hp hf fx_def using hundredths_display_bound[OF vb] by simp
qed


section \<open>The worked example, memory-efficient attention\<close>

lemma body_512_opt: "f_estimate_body 512 512 20 True = Reached
    \<lparr>M_fixed = 2632400000, M_prompt = 61440, latent_h = Fin 64, latent_w = Fin 64,
     N_latent_pixels = Fin 4096, M_latent_buffer = Fin 32768,
     M_unet_intermediate = Fin 81920000, attn_multiplier = Fin 1,
     mode_str = ''Optimized (Linear Scaling)'',
     M_unet_intermediate_adjusted = Fin 81920000,
     M_peak_activation = Fin 81952768, M_peak_bytes = Fin 2714414208\<rparr>"
  by (simp add: f_estimate_body_def Let_def int_truediv_exact fl_ne_int_def pack_numeral
      float_of_int_small C_WEIGHTS_BYTES_def C_OVERHEAD_BYTES_def C_L_FACTOR_def K_ITER_BASE_def)

lemma estimate_512_opt:
  "f_estimate 512 512 20 True = Inr (Fin (2714414208 / 2 ^ 30), ''Optimized (Linear Scaling)'')"
  using fdiv_gb_exact[of 2714414208] by (simp add: f_estimate_def body_512_opt)

lemma hundredths_512_opt: "hundredths (2714414208 / 2 ^ 30) = 253"
  by (rule hundredths_unique) simp_all

lemma endpoint_512_opt:
  "estimate_vram_endpoint \<lparr>height = 512, width = 512, prompt_length = 20, optimization = True\<rparr>
   = Inr (Success \<lparr>predicted_vram_gb = Fin (rnd (253 / 100)),
            attention_mode = ''Optimized (Linear Scaling)'',
            fixed_cost_gb = Fin (rnd (245 / 100)),
            spatial_cost_gb = Fin (rnd (8 / 100))\<rparr>)"
proof -
  have s: "fsub (Fin (2714414208 / 2 ^ 30)) (Fin (2632400000 / 2 ^ 30)) = Fin (82014208 / 2 ^ 30)"
    using pack_dyadic30[of 82014208] by (simp add: fsub_def)
  have hs: "hundredths (82014208 / 2 ^ 30) = 8" by (rule hundredths_unique) simp_all
  have p: "py_round2 (Fin (2714414208 / 2 ^ 30)) = Inr (Fin (rnd (253 / 100)))"
    using py_round2_Fin[of "2714414208 / 2 ^ 30"] unfolding hundredths_512_opt by simp
  have f: "py_round2 (Fin (2632400000 / 2 ^ 30)) = Inr (Fin (rnd (245 / 100)))"
    using py_round2_Fin[of "2632400000 / 2 ^ 30"] unfolding hundredths_fixed by simp
  have sp: "py_round2 (Fin (82014208 / 2 ^ 30)) = Inr (Fin (rnd (8 / 100)))"
    using py_round2_Fin[of "82014208 / 2 ^ 30"] unfolding hs by simp
  show ?thesis
    unfolding estimate_vram_endpoint_def
    using estimate_512_opt fixed_cost_gb_value s p f sp by simp
qed


section \<open>The worked example, standard attention\<close>

lemma body_512_std: "f_estimate_body 512 512 20 False = Reached
    \<lparr>M_fixed = 2632400000, M_prompt = 61440, latent_h = Fin 64, latent_w = Fin 64,
     N_latent_pixels = Fin 4096, M_latent_buffer = Fin 32768,
     M_unet_intermediate = Fin 81920000, attn_multiplier = Fin (5 / 4),
     mode_str = ''Standard (Quadratic Overhead)'',
     M_unet_intermediate_adjusted = Fin 102400000,
     M_peak_activation = Fin 102432768, M_peak_bytes = Fin 2734894208\<rparr>"
  by (simp add: f_estimate_body_def Let_def int_truediv_exact fl_ne_int_def pack_numeral
      float_of_int_small C_WEIGHTS_BYTES_def C_OVERHEAD_BYTES_def C_L_FACTOR_def K_ITER_BASE_def K_ATTN_STANDARD_MULTIPLIER_def)

lemma estimate_512_std:
  "f_estimate 512 512 20 False = Inr (Fin (2734894208 / 2 ^ 30), ''Standard (Quadratic Overhead)'')"
  using fdiv_gb_exact[of 2734894208] by (simp add: f_estimate_def body_512_std)

lemma hundredths_512_std: "hundredths (2734894208 / 2 ^ 30) = 255"
  by (rule hundredths_unique) simp_all

lemma endpoint_512_std:
  "estimate_vram_endpoint \<lparr>height = 512, width = 512, prompt_length = 20, optimization = False\<rparr>
   = Inr (Success \<lparr>predicted_vram_gb = Fin (rnd (255 / 100)),
            attention_mode = ''Standard (Quadratic Overhead)'',
            fixed_cost_gb = Fin (rnd (245 / 100)),
            spatial_cost_gb = Fin (rnd (10 / 100))\<rparr>)"
proof -
  have s: "fsub (Fin (2734894208 / 2 ^ 30)) (Fin (2632400000 / 2 ^ 30)) = Fin (102494208 / 2 ^ 30)"
    using pack_dyadic30[of 102494208] by (simp add: fsub_def)
  have hs: "hundredths (102494208 / 2 ^ 30) = 10" by (rule hundredths_unique) simp_all
  have p: "py_round2 (Fin (2734894208 / 2 ^ 30)) = Inr (Fin (rnd (255 / 100)))"
    using py_round2_Fin[of "2734894208 / 2 ^ 30"] unfolding hundredths_512_std by simp
  have f: "py_round2 (Fin (2632400000 / 2 ^ 30)) = Inr (Fin (rnd (245 / 100)))"
    using py_round2_Fin[of "2632400000 / 2 ^ 30"] unfolding hundredths_fixed by simp
  have sp: "py_round2 (Fin (102494208 / 2 ^ 30)) = Inr (Fin (rnd (10 / 100)))"
    using py_round2_Fin[of "102494208 / 2 ^ 30"] unfolding hs by simp
  show ?thesis
    unfolding estimate_vram_endpoint_def
    using estimate_512_std fixed_cost_gb_value s p f sp by simp
qed


section \<open>Valid requests\<close>

lemma base_small:
  assumes "1 \<le> p" "p \<le> 77"
  shows "rnd (of_int (2632400000 + 3072 * p)) = of_int (2632400000 + 3072 * p)"
    and "\<not> 2 ^ 1024 - 2 ^ 970 \<le> \<bar>2632400000 + 3072 * p\<bar>"
proof -
  have s: "\<bar>2632400000 + 3072 * p\<bar> < 2 ^ 53" using assms by simp
  show "rnd (of_int (2632400000 + 3072 * p)) = of_int (2632400000 + 3072 * p)"
    using s by (rule rnd_exact_int)
  have "(2::int) ^ 53 \<le> 2 ^ 1024 - 2 ^ 970" by simp
  then show "\<not> 2 ^ 1024 - 2 ^ 970 \<le> \<bar>2632400000 + 3072 * p\<bar>" using s by linarith
qed

lemma estimate_gb_ge_fixed:
  assumes "0 \<le> a" "0 \<le> b" "2632400000 \<le> n" "\<bar>n\<bar> < 2 ^ 53"
  shows "fl_le (Fin (2632400000 / 2 ^ 30)) (estimate_gb a b (of_int n) opt)"
proof -
  have n0: "fl_le (Fin 0) (fmul (Fin a) (Fin b))" using assms by (simp add: pack_nonneg)
  have pk: "fl_le (Fin 0) (peak_activation (fmul (Fin a) (Fin b)) opt)"
    using n0 by (rule peak_activation_nonneg)
  have "fl_le (fadd (Fin (of_int n)) (Fin 0))
          (fadd (Fin (of_int n)) (peak_activation (fmul (Fin a) (Fin b)) opt))"
    using assms(3) pk by (intro fadd_mono) simp_all
  then have 1: "fl_le (Fin (of_int n))
          (fadd (Fin (of_int n)) (peak_activation (fmul (Fin a) (Fin b)) opt))"
    using pack_exact_int[OF assms(4)] by simp
  have "fl_le (to_gb (Fin (of_int n))) (estimate_gb a b (of_int n) opt)"
    unfolding estimate_gb_def using 1 by (rule to_gb_mono)
  moreover have "fl_le (pack (of_int 2632400000 / 2 ^ 30)) (to_gb (Fin (of_int n)))"
    unfolding to_gb_def using assms(3) by (simp add: pack_mono divide_right_mono)
  moreover have "pack (of_int 2632400000 / 2 ^ 30) = Fin (2632400000 / 2 ^ 30)"
    using pack_dyadic30[of 2632400000] by simp
  ultimately show ?thesis using fl_le_trans by metis
qed



lemma pack_one [simp]: "pack 1 = Fin 1"
  using pack_exact_int[of 1] by simp


subsection \<open>The response to a request that passes validation\<close>

lemma fadd_Fin_bound: "fadd x y = Fin t \<Longrightarrow> \<bar>t\<bar> < 2 ^ 1024"
proof (cases x; cases y)
  fix a b assume "x = Fin a" "y = Fin b" "fadd x y = Fin t"
  then show ?thesis using pack_cases[of "a + b"] by auto
qed simp_all

lemma to_gb_Fin_bound:
  assumes "\<bar>t\<bar> < 2 ^ 1024"
  shows "\<exists>v. to_gb (Fin t) = Fin v \<and> \<bar>v\<bar> \<le> 2 ^ 994"
proof -
  have "\<bar>t / 2 ^ 30\<bar> \<le> 2 powi 994" using assms by simp
  then have r: "\<bar>rnd (t / 2 ^ 30)\<bar> \<le> 2 powi 994" by (rule rnd_abs_le_pow2) simp
  then have "\<bar>rnd (t / 2 ^ 30)\<bar> < 2 ^ 1024" by simp
  then have "pack (t / 2 ^ 30) = Fin (rnd (t / 2 ^ 30))" by (rule pack_Fin)
  then show ?thesis using r by (simp add: to_gb_def)
qed

lemma estimate_gb_cases:
  "estimate_gb a b c opt = PInf \<or> estimate_gb a b c opt = NInf
   \<or> (\<exists>v. estimate_gb a b c opt = Fin v \<and> \<bar>v\<bar> \<le> 2 ^ 994)"
proof (cases "fadd (Fin c) (peak_activation (fmul (Fin a) (Fin b)) opt)")
  case (Fin t)
  then show ?thesis unfolding estimate_gb_def using to_gb_Fin_bound[OF fadd_Fin_bound[OF Fin]] by simp
next
  case NaN
  then show ?thesis using estimate_gb_not_NaN[of a b c opt] by (simp add: estimate_gb_def to_gb_def)
qed (simp_all add: estimate_gb_def to_gb_def)

lemma py_round2_bounded:
  assumes "\<bar>v\<bar> \<le> 2 ^ 1000"
  shows "py_round2 (Fin v) = Inr (round2 (Fin v))"
proof -
  have "\<bar>rat_of_int (hundredths v) / 100\<bar> \<le> \<bar>v\<bar> + 1"
    using hundredths_err[of v] by (simp add: abs_if split: if_splits)
  then have "\<bar>rat_of_int (hundredths v) / 100\<bar> \<le> 2 ^ 1023" using assms by simp
  then have "py_round2 (Fin v) = Inr (Fin (rnd (of_int (hundredths v) / 100)))"
    by (rule py_round2_Fin)
  then show ?thesis by (simp only: round2_def fl.case)
qed

lemma round2_mono: "fl_le x y \<Longrightarrow> fl_le (round2 x) (round2 y)"
proof (cases x; cases y)
  fix a b assume xy: "x = Fin a" "y = Fin b" and le: "fl_le x y"
  have "hundredths a \<le> hundredths b" unfolding hundredths_def using xy le by (intro rhe_mono) simp
  then have "rat_of_int (hundredths a) / 100 \<le> rat_of_int (hundredths b) / 100" by simp
  then show ?thesis using xy by (simp add: round2_def rnd_mono)
qed (simp_all add: round2_def)

lemma fsub_fixed_bounded:
  assumes "\<bar>v\<bar> \<le> 2 ^ 994"
  shows "\<exists>d. fsub (Fin v) (Fin (2632400000 / 2 ^ 30)) = Fin d \<and> \<bar>d\<bar> \<le> 2 ^ 1000"
proof -
  have "\<bar>v - 2632400000 / 2 ^ 30\<bar> \<le> 2 powi 1000" using assms by (simp add: abs_if split: if_splits)
  then have r: "\<bar>rnd (v - 2632400000 / 2 ^ 30)\<bar> \<le> 2 powi 1000" by (rule rnd_abs_le_pow2) simp
  then have "\<bar>rnd (v - 2632400000 / 2 ^ 30)\<bar> < 2 ^ 1024" by simp
  then have "pack (v - 2632400000 / 2 ^ 30) = Fin (rnd (v - 2632400000 / 2 ^ 30))" by (rule pack_Fin)
  then show ?thesis using r by (simp add: fsub_def)
qed

lemma round2_fixed: "round2 (Fin (2632400000 / 2 ^ 30)) = Fin (rnd (245 / 100))"
  using hundredths_fixed by (simp add: round2_def)

lemma endpoint_success:
  assumes "0 < height r" "0 < width r" "1 \<le> prompt_length r" "prompt_length r \<le> 77"
    and "f_estimate (height r) (width r) (prompt_length r) (optimization r) = Inr (g, m)"
    and "fl_le (Fin 0) g"
    and "g = PInf \<or> (\<exists>v. g = Fin v \<and> \<bar>v\<bar> \<le> 2 ^ 994)"
  shows "estimate_vram_endpoint r = Inr (Success
            \<lparr>predicted_vram_gb = round2 g, attention_mode = m,
             fixed_cost_gb = Fin (rnd (245 / 100)),
             spatial_cost_gb = round2 (fsub g (Fin (2632400000 / 2 ^ 30)))\<rparr>)"
proof -
  have neg: "\<not> fl_lt g (Fin 0)" using assms(6) by (cases g) simp_all
  have f: "py_round2 (Fin (2632400000 / 2 ^ 30)) = Inr (Fin (rnd (245 / 100)))"
    using py_round2_Fin[of "2632400000 / 2 ^ 30"] unfolding hundredths_fixed by simp
  have p: "py_round2 g = Inr (round2 g)"
  proof (cases "g = PInf")
    case True then show ?thesis by (simp add: round2_def)
  next
    case False
    then obtain v where v: "g = Fin v" "\<bar>v\<bar> \<le> 2 ^ 994" using assms(7) by blast
    have "\<bar>v\<bar> \<le> 2 ^ 1000" using v(2) by simp
    then show ?thesis unfolding v(1) by (rule py_round2_bounded)
  qed
  have s: "py_round2 (fsub g (Fin (2632400000 / 2 ^ 30)))
           = Inr (round2 (fsub g (Fin (2632400000 / 2 ^ 30))))"
  proof (cases "g = PInf")
    case True then show ?thesis by (simp add: fsub_def round2_def)
  next
    case False
    then obtain v where v: "g = Fin v" "\<bar>v\<bar> \<le> 2 ^ 994" using assms(7) by blast
    obtain d where d: "fsub (Fin v) (Fin (2632400000 / 2 ^ 30)) = Fin d" "\<bar>d\<bar> \<le> 2 ^ 1000"
      using fsub_fixed_bounded[OF v(2)] by blast
    show ?thesis unfolding v(1) d(1) using d(2) by (rule py_round2_bounded)
  qed
  show ?thesis
    unfolding estimate_vram_endpoint_def using assms(1-5) neg f p s fixed_cost_gb_value
    by (simp del: py_round2.simps)
qed

lemma valid_request_succeeds:
  assumes "0 < h" "8 dvd h" "h < 2 ^ 1027 - 2 ^ 973" "0 < w" "8 dvd w" "w < 2 ^ 1027 - 2 ^ 973"
    "1 \<le> p" "p \<le> 77"
  shows "\<exists>g. f_estimate h w p opt = Inr (g, mode_description opt)
      \<and> fl_le (Fin (2632400000 / 2 ^ 30)) g
      \<and> estimate_vram_endpoint \<lparr>height = h, width = w, prompt_length = p, optimization = opt\<rparr>
        = Inr (Success \<lparr>predicted_vram_gb = round2 g, attention_mode = mode_description opt,
                 fixed_cost_gb = Fin (rnd (245 / 100)),
                 spatial_cost_gb = round2 (fsub g (Fin (2632400000 / 2 ^ 30)))\<rparr>)"
proof -
  define a b where "a = rnd (of_int (h div 8))" and "b = rnd (of_int (w div 8))"
  define n where "n = 2632400000 + 3072 * p"
  define g where "g = estimate_gb a b (of_int n) opt"
  have nn: "0 \<le> a" "0 \<le> b"
    using assms(1,4) by (simp_all add: a_def b_def rnd_nonneg pos_imp_zdiv_nonneg_iff)
  have n: "2632400000 \<le> n" "\<bar>n\<bar> < 2 ^ 53" using assms(7,8) by (simp_all add: n_def)
  have e: "f_estimate h w p opt = Inr (g, mode_description opt)"
    using assms(1,3,4,6) base_small[OF assms(7,8)]
    unfolding f_estimate_divisible[OF assms(2,5)] g_def a_def b_def n_def by simp
  have f: "fl_le (Fin (2632400000 / 2 ^ 30)) g"
    unfolding g_def using nn n by (intro estimate_gb_ge_fixed)
  have z: "fl_le (Fin 0) (Fin (2632400000 / 2 ^ 30))" by simp
  have p: "fl_le (Fin 0) g" using z f fl_le_trans by blast
  have c: "g = PInf \<or> (\<exists>v. g = Fin v \<and> \<bar>v\<bar> \<le> 2 ^ 994)"
    using estimate_gb_cases[of a b "of_int n" opt] p unfolding g_def by auto
  have "estimate_vram_endpoint \<lparr>height = h, width = w, prompt_length = p, optimization = opt\<rparr>
     = Inr (Success \<lparr>predicted_vram_gb = round2 g, attention_mode = mode_description opt,
              fixed_cost_gb = Fin (rnd (245 / 100)),
              spatial_cost_gb = round2 (fsub g (Fin (2632400000 / 2 ^ 30)))\<rparr>)"
    using assms e p c by (intro endpoint_success) simp_all
  then show ?thesis using e f by blast
qed


section \<open>The relative error of rounding, and the two attention modes\<close>

lemma rnd_rel:
  assumes "2 powi (- 1022) \<le> x"
  shows "x * (1 - 1 / 2 ^ 53) \<le> rnd x" and "rnd x \<le> x * (1 + 1 / 2 ^ 53)"
proof -
  have x: "0 < x" using assms by (meson less_le_trans pow2_pos)
  then have ax: "\<bar>x\<bar> = x" by simp
  have "- 1022 \<le> ilog2 x" using assms ax by (intro ilog2_ge) simp
  then have q: "quantum x = ilog2 x - 52" by (simp add: quantum_def)
  have "(2::rat) powi (ilog2 x - 52) = 2 powi ilog2 x / 2 powi 52"
    by (rule power_int_diff) simp
  then have "(2::rat) powi quantum x / 2 = 2 powi ilog2 x / 2 ^ 53"
    unfolding q by simp
  also have "\<dots> \<le> x / 2 ^ 53"
    using ilog2_bounds(1)[of x] x ax by (intro divide_right_mono) simp_all
  finally have "\<bar>rnd x - x\<bar> \<le> x / 2 ^ 53" using rnd_err[of x] by linarith
  then have "rnd x - x \<le> x / 2 ^ 53" "x - rnd x \<le> x / 2 ^ 53" by linarith+
  then show "x * (1 - 1 / 2 ^ 53) \<le> rnd x" "rnd x \<le> x * (1 + 1 / 2 ^ 53)"
    by (simp_all add: algebra_simps)
qed

lemma pack_Fin_D: "pack x = Fin t \<Longrightarrow> t = rnd x"
  by (auto simp: pack_def Let_def split: if_splits)

lemma fmul_const_Fin_D: "fmul x (Fin c) = Fin t \<Longrightarrow> \<exists>a. x = Fin a \<and> t = rnd (a * c)"
  by (cases x) (auto dest: pack_Fin_D split: if_splits)

lemma fadd_Fin_D: "fadd x y = Fin t \<Longrightarrow> \<exists>a b. x = Fin a \<and> y = Fin b \<and> t = rnd (a + b)"
  by (cases x; cases y) (auto dest: pack_Fin_D)

lemma to_gb_Fin_D: "to_gb x = Fin v \<Longrightarrow> \<exists>t. x = Fin t \<and> v = rnd (t / 2 ^ 30)"
  by (cases x) (auto simp: to_gb_def dest: pack_Fin_D)

lemma estimate_gb_Fin_D:
  assumes "estimate_gb a b base opt = Fin v"
  shows "\<exists>n A X B1 B S T. n = rnd (a * b) \<and> A = rnd (n * 20000)
      \<and> X = rnd (A * (if opt then 1 else 5 / 4)) \<and> B1 = rnd (n * 4) \<and> B = rnd (B1 * 2)
      \<and> S = rnd (X + B) \<and> T = rnd (base + S) \<and> v = rnd (T / 2 ^ 30)"
proof -
  obtain T where T: "fadd (Fin base) (peak_activation (fmul (Fin a) (Fin b)) opt) = Fin T"
      "v = rnd (T / 2 ^ 30)"
    using to_gb_Fin_D[OF assms[unfolded estimate_gb_def]] by blast
  obtain S where S: "peak_activation (fmul (Fin a) (Fin b)) opt = Fin S" "T = rnd (base + S)"
    using fadd_Fin_D[OF T(1)] by auto
  have m: "(if opt then Fin 1 else K_ATTN_STANDARD_MULTIPLIER) = Fin (if opt then 1 else 5 / 4)"
    by (simp add: K_ATTN_STANDARD_MULTIPLIER_def)
  obtain X B where XB: "fmul (fmul (fmul (Fin a) (Fin b)) (Fin 20000)) (Fin (if opt then 1 else 5 / 4)) = Fin X"
      "fmul (fmul (fmul (Fin a) (Fin b)) (Fin 4)) (Fin 2) = Fin B" "S = rnd (X + B)"
    using fadd_Fin_D[OF S(1)[unfolded peak_activation_def m K_ITER_BASE_def]] by auto
  obtain A where A: "fmul (fmul (Fin a) (Fin b)) (Fin 20000) = Fin A"
      "X = rnd (A * (if opt then 1 else 5 / 4))"
    using fmul_const_Fin_D[OF XB(1)] by blast
  obtain n where n: "fmul (Fin a) (Fin b) = Fin n" "A = rnd (n * 20000)"
    using fmul_const_Fin_D[OF A(1)] by blast
  obtain B1 where B1: "fmul (fmul (Fin a) (Fin b)) (Fin 4) = Fin B1" "B = rnd (B1 * 2)"
    using fmul_const_Fin_D[OF XB(2)] by blast
  have B1n: "B1 = rnd (n * 4)" using fmul_const_Fin_D[OF B1(1)] n(1) by auto
  have "n = rnd (a * b)" using n(1) by (auto dest: pack_Fin_D)
  then show ?thesis using n A B1 B1n XB S T by blast
qed

lemma rnd_rel_ge:
  assumes "1 / 2 ^ 30 \<le> x"
  shows "x * (1 - 1 / 2 ^ 53) \<le> rnd x" and "rnd x \<le> x * (1 + 1 / 2 ^ 53)"
proof -
  have "(- 1022 :: int) \<le> - 30" by simp
  then have "(2::rat) powi (- 1022) \<le> 2 powi (- 30)" by (simp only: pow2_le_iff)
  also have "(2::rat) powi (- 30) = 1 / 2 ^ 30" by (simp add: power_int_minus)
  finally have t: "2 powi (- 1022) \<le> x" using assms by linarith
  show "x * (1 - 1 / 2 ^ 53) \<le> rnd x" using t by (rule rnd_rel(1))
  show "rnd x \<le> x * (1 + 1 / 2 ^ 53)" using t by (rule rnd_rel(2))
qed

lemma strict_chain:
  assumes n: "1 \<le> n" and base: "0 \<le> base" "base \<le> 2 ^ 32"
    and A: "A = rnd (n * 20000)"
    and X1: "X1 = rnd (A * 1)" and X5: "X5 = rnd (A * (5 / 4))"
    and B1: "B1 = rnd (n * 4)" and B: "B = rnd (B1 * 2)"
    and S1: "S1 = rnd (X1 + B)" and S5: "S5 = rnd (X5 + B)"
    and T1: "T1 = rnd (base + S1)" and T5: "T5 = rnd (base + S5)"
    and v1: "v1 = rnd (T1 / 2 ^ 30)" and v5: "v5 = rnd (T5 / 2 ^ 30)"
  shows "v1 < v5"
proof -
  have pa: "1 / 2 ^ 30 \<le> n * 20000" using n by simp
  note ra = rnd_rel_ge[OF pa, folded A]
  have a: "n * 19999 \<le> A" "A \<le> n * 20001" using ra n by (simp_all add: algebra_simps)
  have px1: "1 / 2 ^ 30 \<le> A * 1" using a n by simp
  note x1 = rnd_rel_ge[OF px1, folded X1]
  have px5: "1 / 2 ^ 30 \<le> A * (5 / 4)" using a n by simp
  note x5 = rnd_rel_ge[OF px5, folded X5]
  have pb1: "1 / 2 ^ 30 \<le> n * 4" using n by simp
  note rb1 = rnd_rel_ge[OF pb1, folded B1]
  have b1: "n * 3 \<le> B1" "B1 \<le> n * 5" using rb1 n by (simp_all add: algebra_simps)
  have pb: "1 / 2 ^ 30 \<le> B1 * 2" using b1 n by simp
  note rb = rnd_rel_ge[OF pb, folded B]
  have b: "n * 5 \<le> B" "B \<le> n * 11" using rb b1 n by (simp_all add: algebra_simps)
  have x1b: "n * 19998 \<le> X1" "X1 \<le> n * 20002" using x1 a n by (simp_all add: algebra_simps)
  have x5b: "n * 24997 \<le> X5" "X5 \<le> n * 25002" using x5 a n by (simp_all add: algebra_simps)
  have ps1: "1 / 2 ^ 30 \<le> X1 + B" using x1b b n by simp
  note s1 = rnd_rel_ge[OF ps1, folded S1]
  have ps5: "1 / 2 ^ 30 \<le> X5 + B" using x5b b n by simp
  note s5 = rnd_rel_ge[OF ps5, folded S5]
  have s1b: "n * 20002 \<le> S1" "S1 \<le> n * 20014" using s1 x1b b n by (simp_all add: algebra_simps)
  have s5b: "n * 25001 \<le> S5" "S5 \<le> n * 25014" using s5 x5b b n by (simp_all add: algebra_simps)
  have pt1: "1 / 2 ^ 30 \<le> base + S1" using s1b base n by simp
  note t1 = rnd_rel_ge[OF pt1, folded T1]
  have pt5: "1 / 2 ^ 30 \<le> base + S5" using s5b base n by simp
  note t5 = rnd_rel_ge[OF pt5, folded T5]
  have t1b: "n * 20001 \<le> T1" using t1 s1b base n by (simp add: algebra_simps)
  have t5b: "n * 25000 \<le> T5" using t5 s5b base n by (simp add: algebra_simps)
  have pv1: "1 / 2 ^ 30 \<le> T1 / 2 ^ 30" using t1b n by simp
  note g1 = rnd_rel_ge(2)[OF pv1, folded v1]
  have pv5: "1 / 2 ^ 30 \<le> T5 / 2 ^ 30" using t5b n by simp
  note g5 = rnd_rel_ge(1)[OF pv5, folded v5]
  have d: "T1 + n * 4000 \<le> T5" using t1 t5 s1b s5b base n by (simp add: algebra_simps)
  have "T1 / 2 ^ 30 * (1 + 1 / 2 ^ 53) < T5 / 2 ^ 30 * (1 - 1 / 2 ^ 53)"
    using d t1 t5 s1b s5b base n by (simp add: algebra_simps)
  then show ?thesis using g1 g5 by linarith
qed

lemma fmul_factor_mono:
  assumes "fl_le (Fin 0) x" "0 < c" "c \<le> d"
  shows "fl_le (fmul x (Fin c)) (fmul x (Fin d))"
proof -
  consider "x = PInf" | a where "x = Fin a" "0 \<le> a" using nonneg_cases[OF assms(1)] by blast
  then show ?thesis
  proof cases
    case 1 then show ?thesis using assms(2,3) by simp
  next
    case 2 then show ?thesis using assms(3) by (simp add: pack_mono mult_left_mono)
  qed
qed

lemma estimate_gb_flag_mono:
  assumes "0 \<le> a" "0 \<le> b" "0 \<le> base"
  shows "fl_le (estimate_gb a b base True) (estimate_gb a b base False)"
proof -
  define n where "n = fmul (Fin a) (Fin b)"
  have n: "fl_le (Fin 0) n" unfolding n_def using assms by (simp add: pack_nonneg)
  have u: "fl_le (Fin 0) (fmul n (Fin 20000))" using n by (intro fmul_const_nonneg) simp_all
  have bf: "fl_le (Fin 0) (fmul (fmul n (Fin 4)) (Fin 2))"
    using n by (intro fmul_const_nonneg) simp_all
  have "fl_le (peak_activation n True) (peak_activation n False)"
    unfolding peak_activation_def K_ATTN_STANDARD_MULTIPLIER_def K_ITER_BASE_def
    using u bf by (auto intro!: fadd_mono fmul_factor_mono fmul_const_nonneg fl_le_refl dest: fl_le_not_NaN)
  moreover have "fl_le (Fin 0) (peak_activation n True)" using n by (rule peak_activation_nonneg)
  ultimately show ?thesis unfolding estimate_gb_def n_def[symmetric] using assms(3)
    by (intro to_gb_mono fadd_mono) simp_all
qed

lemma rnd_ge_1: "1 \<le> x \<Longrightarrow> 1 \<le> rnd x"
  using rnd_mono[of 1 x] rnd_exact_int[of 1] by simp

lemma estimate_gb_strict:
  assumes a: "1 \<le> a" and b: "1 \<le> b" and base: "0 \<le> base" "base \<le> 2 ^ 32"
  shows "fl_lt (estimate_gb a b base True) (estimate_gb a b base False)
         \<or> estimate_gb a b base True = PInf \<and> estimate_gb a b base False = PInf"
proof -
  define g1 g2 where "g1 = estimate_gb a b base True" and "g2 = estimate_gb a b base False"
  have le: "fl_le g1 g2" unfolding g1_def g2_def using a b base by (intro estimate_gb_flag_mono) simp_all
  have "fl_le (Fin 0) (fmul (Fin a) (Fin b))" using a b by (simp add: pack_nonneg)
  then have "fl_le (Fin 0) (fadd (Fin base) (peak_activation (fmul (Fin a) (Fin b)) True))"
    using base by (intro fadd_nonneg peak_activation_nonneg) simp_all
  then have "fl_le (to_gb (Fin 0)) g1" unfolding g1_def estimate_gb_def by (rule to_gb_mono)
  then have nn: "fl_le (Fin 0) g1" by (simp add: to_gb_def)
  show ?thesis
  proof (cases g1)
    case NaN then show ?thesis using le by simp
  next
    case NInf then show ?thesis using nn by simp
  next
    case PInf
    then have "g2 = PInf" using le by (cases g2) simp_all
    then show ?thesis using PInf by (simp add: g1_def g2_def)
  next
    case (Fin v1)
    show ?thesis
    proof (cases g2)
      case NaN then show ?thesis using le by (cases g1) simp_all
    next
      case NInf then show ?thesis using le Fin by simp
    next
      case PInf then show ?thesis using Fin by (simp add: g1_def g2_def)
    next
      case (Fin v2)
      obtain n A X1 B1 B S1 T1 where c1: "n = rnd (a * b)" "A = rnd (n * 20000)"
        "X1 = rnd (A * (if True then 1 else 5 / 4))" "B1 = rnd (n * 4)" "B = rnd (B1 * 2)"
        "S1 = rnd (X1 + B)" "T1 = rnd (base + S1)" "v1 = rnd (T1 / 2 ^ 30)"
        using estimate_gb_Fin_D[OF \<open>g1 = Fin v1\<close>[unfolded g1_def]] by blast
      obtain n' A' X5 B1' B' S5 T5 where c2: "n' = rnd (a * b)" "A' = rnd (n' * 20000)"
        "X5 = rnd (A' * (if False then 1 else 5 / 4))" "B1' = rnd (n' * 4)" "B' = rnd (B1' * 2)"
        "S5 = rnd (X5 + B')" "T5 = rnd (base + S5)" "v2 = rnd (T5 / 2 ^ 30)"
        using estimate_gb_Fin_D[OF Fin[unfolded g2_def]] by blast
      have same: "n' = n" "A' = A" "B1' = B1" "B' = B" using c1 c2 by simp_all
      have "1 * 1 \<le> a * b" using a b by (intro mult_mono) simp_all
      then have n1: "1 \<le> n" unfolding c1(1) by (intro rnd_ge_1) simp
      have "v1 < v2"
        using n1 base c1(2) _ _ c1(4,5,6) _ c1(7) _ c1(8) c2(8)
      proof (rule strict_chain)
        show "X1 = rnd (A * 1)" using c1(3) by simp
        show "X5 = rnd (A * (5 / 4))" using c2(3) same by simp
        show "S5 = rnd (X5 + B)" using c2(6) same by simp
        show "T5 = rnd (base + S5)" using c2(7) .
      qed
      then show ?thesis using Fin \<open>g1 = Fin v1\<close> by (simp add: g1_def g2_def)
    qed
  qed
qed

section \<open>Claim C1: the worked example with memory-efficient attention\<close>


text \<open>
  The three costs of the example add up to 2,714,414,208 bytes, not to 2,714,414,608.
\<close>

theorem example_total_is_not_2714414608:
  "peak_bytes 512 512 20 True = Some (Fin 2714414208)
   \<and> peak_bytes 512 512 20 True \<noteq> Some (Fin 2714414608)"
  by (simp add: peak_bytes_def body_512_opt)

text \<open>
  C1, as amended. For height 512, width 512, prompt length 20 and memory-efficient attention,
  the estimator computes latent_h = 64, latent_w = 64, N = 4096, a latent buffer of 32768
  bytes, a base intermediate cost of 81,920,000 bytes, multiplier 1.0, a peak activation of
  81,952,768 bytes, a prompt cost of 61,440 bytes, a fixed cost of 2,632,400,000 bytes and a
  total of 2,714,414,208 bytes; it returns that total divided by \<open>1024 ^ 3\<close>, which rounds to
  2.53 at two decimals, and the handler reports the float 2.53.
\<close>

theorem example_512_optimized:
  "f_estimate_body 512 512 20 True = Reached
    \<lparr>M_fixed = 2632400000, M_prompt = 61440, latent_h = Fin 64, latent_w = Fin 64,
     N_latent_pixels = Fin 4096, M_latent_buffer = Fin 32768,
     M_unet_intermediate = Fin 81920000, attn_multiplier = Fin 1,
     mode_str = ''Optimized (Linear Scaling)'',
     M_unet_intermediate_adjusted = Fin 81920000,
     M_peak_activation = Fin 81952768, M_peak_bytes = Fin 2714414208\<rparr>
   \<and> f_estimate 512 512 20 True
       = Inr (Fin (2714414208 / 1024 ^ 3), ''Optimized (Linear Scaling)'')
   \<and> hundredths (2714414208 / 1024 ^ 3) = 253
   \<and> estimate_vram_endpoint
         \<lparr>height = 512, width = 512, prompt_length = 20, optimization = True\<rparr>
       = Inr (Success \<lparr>predicted_vram_gb = Fin (rnd (253 / 100)),
                attention_mode = ''Optimized (Linear Scaling)'',
                fixed_cost_gb = Fin (rnd (245 / 100)),
                spatial_cost_gb = Fin (rnd (8 / 100))\<rparr>)"
  using body_512_opt estimate_512_opt hundredths_512_opt endpoint_512_opt by simp

section \<open>Claim C2: the divisibility check\<close>

text \<open>
  The check divides as floats and compares the quotient with its integer part. A height
  above \<open>2 ^ 53\<close> that is not a multiple of 8 can have a quotient that rounds to an integer:
  \<open>(2 ^ 53 + 1) / 8\<close> rounds to \<open>2 ^ 50\<close>.
\<close>

lemma latent_h_above_2_53: "int_truediv 9007199254740993 8 = Inr (Fin (2 ^ 50))"
proof -
  have t: "rhe (9007199254740993 / 2) = 4503599627370496"
    using rhe_tie_even[of 4503599627370496] by simp
  have "rnd (9007199254740993 / 8) = of_int 4503599627370496 * 2 powi (- 2)"
    by (rule rnd_eval[where e = 50]) (simp_all add: t power_int_minus)
  then have "rnd (9007199254740993 / 8) = 2 ^ 50" by (simp add: power_int_minus)
  then show ?thesis by (simp add: int_truediv_def)
qed


lemma peak_bytes_above_2_53:
  "pack (2632461440 + 22527005336107220992) = Fin 22527005338739683328"
proof -
  have h: "rhe (22527005338739682432 / 4096) = 5499757162778243"
    by (rule rhe_unique) simp_all
  have "rnd 22527005338739682432 = of_int 5499757162778243 * 2 powi 12"
    by (rule rnd_eval[where e = 64 and q = 12]) (use h in simp_all)
  then have r: "rnd 22527005338739682432 = 22527005338739683328" by simp
  show ?thesis using pack_Fin[of 22527005338739682432] unfolding r by simp
qed

lemma body_above_2_53:
  "f_estimate_body 9007199254740993 8 20 True = Reached
    \<lparr>M_fixed = 2632400000, M_prompt = 61440, latent_h = Fin (2 ^ 50), latent_w = Fin 1,
     N_latent_pixels = Fin (2 ^ 50), M_latent_buffer = Fin (2 ^ 53),
     M_unet_intermediate = Fin (625 * 2 ^ 55), attn_multiplier = Fin 1,
     mode_str = ''Optimized (Linear Scaling)'',
     M_unet_intermediate_adjusted = Fin (625 * 2 ^ 55),
     M_peak_activation = Fin (2501 * 2 ^ 53), M_peak_bytes = Fin 22527005338739683328\<rparr>"
  using pack_exact[of 1 53] pack_exact[of 625 55] pack_exact[of 2501 53] peak_bytes_above_2_53
  by (simp add: f_estimate_body_def Let_def latent_h_above_2_53 int_truediv_exact
      fl_ne_int_def pack_numeral float_of_int_small
      C_WEIGHTS_BYTES_def C_OVERHEAD_BYTES_def C_L_FACTOR_def K_ITER_BASE_def)

lemma gb_above_2_53: "bytes_to_gb (Fin 22527005338739683328) = Inr (Fin (5499757162778243 / 2 ^ 18))"
proof -
  have r: "rnd (of_int 5499757162778243 * 2 powi (- 18)) = of_int 5499757162778243 * 2 powi (- 18)"
    by (rule rnd_exact) simp_all
  have e: "(22527005338739683328::rat) / 2 ^ 30 = of_int 5499757162778243 * 2 powi (- 18)"
    by (simp add: power_int_minus)
  have "\<bar>rat_of_int 5499757162778243 * 2 powi (- 18)\<bar> \<le> 2 ^ 1023" by (simp add: power_int_minus)
  then have "\<bar>rnd (rat_of_int 5499757162778243 * 2 powi (- 18))\<bar> < 2 ^ 1024" by (rule rnd_abs_lt_overflow)
  then have "pack (of_int 5499757162778243 * 2 powi (- 18)) = Fin (of_int 5499757162778243 * 2 powi (- 18))"
    using pack_Fin[of "of_int 5499757162778243 * 2 powi (- 18)"] unfolding r by simp
  then show ?thesis unfolding bytes_to_gb_Fin e by (simp add: power_int_minus)
qed

text \<open>Below \<open>2 ^ 53\<close> the quotient is exact, and so is the check.\<close>

lemma int_truediv_8_small:
  assumes "\<bar>h\<bar> < 2 ^ 53"
  shows "int_truediv h 8 = Inr (Fin (of_int h / 8))"
proof -
  have e: "rat_of_int h / 8 = of_int h * 2 powi (- 3)" by (simp add: power_int_minus)
  have r: "rnd (rat_of_int h / 8) = of_int h / 8" unfolding e using assms by (intro rnd_exact) auto
  have "rat_of_int \<bar>h\<bar> < of_int (2 ^ 53)" using assms by (simp only: of_int_less_iff)
  then have "\<bar>rat_of_int h / 8\<bar> < 2 ^ 1024" by simp
  then show ?thesis by (simp add: int_truediv_def r)
qed

lemma eighth_integer_iff:
  "fl_ne_int (Fin (rat_of_int h / 8)) (if 0 \<le> rat_of_int h / 8 then \<lfloor>rat_of_int h / 8\<rfloor> else \<lceil>rat_of_int h / 8\<rceil>)
   \<longleftrightarrow> \<not> 8 dvd h"
proof (cases "8 dvd h")
  case True
  then obtain k where "h = 8 * k" by (auto simp: dvd_def)
  then show ?thesis by (simp add: fl_ne_int_def)
next
  case False
  have "rat_of_int h / 8 \<noteq> of_int n" for n
  proof
    assume "rat_of_int h / 8 = of_int n"
    then have "rat_of_int h = of_int (8 * n)" by simp
    then have "h = 8 * n" by (simp only: of_int_eq_iff)
    then show False using False by simp
  qed
  then show ?thesis using False by (simp add: fl_ne_int_def)
qed

lemma multiple_of_8_check_small:
  assumes "\<bar>h\<bar> < 2 ^ 53" "\<bar>w\<bar> < 2 ^ 53"
  shows "f_estimate h w p opt = Inr (Fin (- 1), ''Input dimensions must be multiples of 8.'')
         \<longleftrightarrow> \<not> (8 dvd h \<and> 8 dvd w)"
proof (cases "8 dvd h \<and> 8 dvd w")
  case True
  then have "f_estimate h w p opt = Inl OverflowError
     \<or> (\<exists>g. f_estimate h w p opt = Inr (g, mode_description opt))"
    using f_estimate_divisible[of h w p opt] by auto
  moreover have "mode_description opt \<noteq> ''Input dimensions must be multiples of 8.''"
    by (cases opt) (simp_all add: mode_description_def)
  ultimately show ?thesis using True by auto
next
  case False
  have "f_estimate_body h w p opt = Returned (Fin (- 1)) ''Input dimensions must be multiples of 8.''"
    using False eighth_integer_iff[of h] eighth_integer_iff[of w]
    unfolding f_estimate_body_def Let_def int_truediv_8_small[OF assms(1)]
      int_truediv_8_small[OF assms(2)]
    by (auto simp del: of_int_floor_cancel)
  then show ?thesis using False by (simp add: f_estimate_def)
qed

lemma check_at_512_and_513:
  "f_estimate 512 512 20 True \<noteq> Inr (Fin (- 1), ''Input dimensions must be multiples of 8.'')"
  "f_estimate 513 512 20 True = Inr (Fin (- 1), ''Input dimensions must be multiples of 8.'')"
  using multiple_of_8_check_small[of 512 512 20 True] multiple_of_8_check_small[of 513 512 20 True]
  by simp_all

text \<open>
  C2 says that the estimator fails with the negative sentinel exactly when height or width
  is not a multiple of 8, for all positive integers. At height \<open>2 ^ 53 + 1\<close> and width 8 the
  code returns an estimate instead of the sentinel.
\<close>

theorem float_check_misses_2_53_plus_1:
  "\<not> 8 dvd (9007199254740993::int)
   \<and> f_estimate 9007199254740993 8 20 True
       = Inr (Fin (5499757162778243 / 2 ^ 18), ''Optimized (Linear Scaling)'')"
  using gb_above_2_53 by (simp add: f_estimate_def body_above_2_53)

section \<open>Claim C3: the worked example with standard attention\<close>



text \<open>
  C3. For height 512, width 512, prompt length 20 and standard attention, the estimator
  applies the multiplier 1.25: the adjusted intermediate cost is 102,400,000 bytes, the peak
  activation 102,432,768 bytes and the total 2,734,894,208 bytes, which is 2.55 GB at two
  decimals, and the attention mode is "Standard (Quadratic Overhead)".
\<close>

theorem example_512_standard:
  "f_estimate_body 512 512 20 False = Reached
    \<lparr>M_fixed = 2632400000, M_prompt = 61440, latent_h = Fin 64, latent_w = Fin 64,
     N_latent_pixels = Fin 4096, M_latent_buffer = Fin 32768,
     M_unet_intermediate = Fin 81920000, attn_multiplier = Fin (5 / 4),
     mode_str = ''Standard (Quadratic Overhead)'',
     M_unet_intermediate_adjusted = Fin 102400000,
     M_peak_activation = Fin 102432768, M_peak_bytes = Fin 2734894208\<rparr>
   \<and> f_estimate 512 512 20 False
       = Inr (Fin (2734894208 / 1024 ^ 3), ''Standard (Quadratic Overhead)'')
   \<and> hundredths (2734894208 / 1024 ^ 3) = 255
   \<and> estimate_vram_endpoint
         \<lparr>height = 512, width = 512, prompt_length = 20, optimization = False\<rparr>
       = Inr (Success \<lparr>predicted_vram_gb = Fin (rnd (255 / 100)),
                attention_mode = ''Standard (Quadratic Overhead)'',
                fixed_cost_gb = Fin (rnd (245 / 100)),
                spatial_cost_gb = Fin (rnd (10 / 100))\<rparr>)"
  using body_512_std estimate_512_std hundredths_512_std endpoint_512_std by simp

section \<open>Claim C4: the estimate is at least the fixed cost\<close>

text \<open>
  Dividing an \<^verbatim>\<open>int\<close> by 8 raises \<^verbatim>\<open>OverflowError\<close> when the quotient is beyond the floats:
  for the valid height \<open>2 ^ 1027\<close> the estimator returns no estimate.
\<close>

theorem huge_height_raises_overflow:
  "0 < (2 ^ 1027 :: int) \<and> 8 dvd (2 ^ 1027 :: int) \<and> f_estimate (2 ^ 1027) 8 1 True = Inl OverflowError"
proof -
  have d: "8 dvd (2 ^ 1027 :: int)" using le_imp_power_dvd[of 3 1027 "2::int"] by simp
  show ?thesis using d f_estimate_divisible[OF d, of 8 1 True] by simp
qed

text \<open>
  C4, as amended. For every valid input (height and width positive multiples of 8, prompt
  length in [1, 77], either value of the flag) with height and width below
  \<open>2 ^ 1027 - 2 ^ 973\<close>, the estimator returns an estimate, and it is at least the fixed
  cost in gigabytes, the conversion of 2,632,400,000 bytes. For a valid input with a larger
  height or width it raises \<^verbatim>\<open>OverflowError\<close>.
\<close>

theorem estimate_at_least_fixed_cost:
  assumes "0 < h" "8 dvd h" "0 < w" "8 dvd w" "1 \<le> p" "p \<le> 77"
  shows "(2 ^ 1027 - 2 ^ 973 \<le> h \<or> 2 ^ 1027 - 2 ^ 973 \<le> w)
           \<and> f_estimate h w p opt = Inl OverflowError
       \<or> h < 2 ^ 1027 - 2 ^ 973 \<and> w < 2 ^ 1027 - 2 ^ 973
           \<and> (\<exists>g fixed. f_estimate h w p opt = Inr (g, mode_description opt)
                \<and> bytes_to_gb_int (C_WEIGHTS_BYTES + C_OVERHEAD_BYTES) = Inr fixed
                \<and> fl_le fixed g)"
proof (cases "2 ^ 1027 - 2 ^ 973 \<le> h \<or> 2 ^ 1027 - 2 ^ 973 \<le> w")
  case True
  then show ?thesis using assms(1,3) f_estimate_divisible[OF assms(2,4), of p opt] by auto
next
  case False
  define a b where "a = rnd (of_int (h div 8))" and "b = rnd (of_int (w div 8))"
  have ab: "0 \<le> a" "0 \<le> b"
    using assms(1,3) by (simp_all add: a_def b_def rnd_nonneg pos_imp_zdiv_nonneg_iff)
  have e: "f_estimate h w p opt
           = Inr (estimate_gb a b (of_int (2632400000 + 3072 * p)) opt, mode_description opt)"
    using False assms(1,3) base_small[OF assms(5,6)]
    unfolding f_estimate_divisible[OF assms(2,4)] a_def b_def by simp
  have "fl_le (Fin (2632400000 / 2 ^ 30)) (estimate_gb a b (of_int (2632400000 + 3072 * p)) opt)"
    using ab assms(5,6) by (intro estimate_gb_ge_fixed) simp_all
  then show ?thesis using False e fixed_cost_gb_value by auto
qed

theorem estimate_at_least_fixed_cost_witness:
  "(0::int) < 512 \<and> 8 dvd (512::int) \<and> (1::int) \<le> 20 \<and> (20::int) \<le> 77
   \<and> f_estimate 512 512 20 True = Inr (Fin (2714414208 / 2 ^ 30), mode_description True)
   \<and> bytes_to_gb_int (C_WEIGHTS_BYTES + C_OVERHEAD_BYTES) = Inr (Fin (2632400000 / 2 ^ 30))
   \<and> fl_le (Fin (2632400000 / 2 ^ 30)) (Fin (2714414208 / 2 ^ 30))"
  using estimate_at_least_fixed_cost[of 512 512 20 True] estimate_512_opt fixed_cost_gb_value
  by (simp add: mode_description_def)


section \<open>Claim C5: monotonicity in the height\<close>

text \<open>
  The handler reports the estimate rounded to two decimals, and one more latent row of 8
  pixels adds about 0.00002 GB: heights 8 and 16 get the same response.
\<close>

lemma estimate_8_8: "f_estimate 8 8 1 True = Inr (Fin (2632423080 / 2 ^ 30), ''Optimized (Linear Scaling)'')"
proof -
  have d: "8 dvd (8::int)" by simp
  have b: "rnd (rat_of_int (2632400000 + 3072 * 1)) = 2632403072"
    using rnd_exact_int[of 2632403072] by simp
  have a: "rnd (rat_of_int (8 div 8)) = 1" using rnd_exact_int[of 1] by simp
  have "estimate_gb 1 1 2632403072 True = Fin (2632423080 / 2 ^ 30)"
    using pack_dyadic30[of 2632423080]
    by (simp add: estimate_gb_def peak_activation_def to_gb_def K_ITER_BASE_def pack_numeral)
  then show ?thesis unfolding f_estimate_divisible[OF d d] a b by (simp add: mode_description_def)
qed

lemma estimate_16_8: "f_estimate 16 8 1 True = Inr (Fin (2632443088 / 2 ^ 30), ''Optimized (Linear Scaling)'')"
proof -
  have d: "8 dvd (8::int)" "8 dvd (16::int)" by simp_all
  have b: "rnd (rat_of_int (2632400000 + 3072 * 1)) = 2632403072"
    using rnd_exact_int[of 2632403072] by simp
  have a: "rnd (rat_of_int (8 div 8)) = 1" "rnd (rat_of_int (16 div 8)) = 2"
    using rnd_exact_int[of 1] rnd_exact_int[of 2] by simp_all
  have "estimate_gb 2 1 2632403072 True = Fin (2632443088 / 2 ^ 30)"
    using pack_dyadic30[of 2632443088]
    by (simp add: estimate_gb_def peak_activation_def to_gb_def K_ITER_BASE_def pack_numeral)
  then show ?thesis unfolding f_estimate_divisible[OF d(2,1)] a b by (simp add: mode_description_def)
qed

theorem same_prediction_for_heights_8_and_16:
  "estimate_vram_endpoint \<lparr>height = 8, width = 8, prompt_length = 1, optimization = True\<rparr>
     = Inr (Success \<lparr>predicted_vram_gb = Fin (rnd (245 / 100)),
              attention_mode = ''Optimized (Linear Scaling)'',
              fixed_cost_gb = Fin (rnd (245 / 100)), spatial_cost_gb = Fin 0\<rparr>)
   \<and> estimate_vram_endpoint \<lparr>height = 16, width = 8, prompt_length = 1, optimization = True\<rparr>
     = Inr (Success \<lparr>predicted_vram_gb = Fin (rnd (245 / 100)),
              attention_mode = ''Optimized (Linear Scaling)'',
              fixed_cost_gb = Fin (rnd (245 / 100)), spatial_cost_gb = Fin 0\<rparr>)"
proof -
  have h1: "hundredths (2632423080 / 2 ^ 30) = 245" by (rule hundredths_unique) simp_all
  have h2: "hundredths (2632443088 / 2 ^ 30) = 245" by (rule hundredths_unique) simp_all
  have s1: "fsub (Fin (2632423080 / 2 ^ 30)) (Fin (2632400000 / 2 ^ 30)) = Fin (23080 / 2 ^ 30)"
    using pack_dyadic30[of 23080] by (simp add: fsub_def)
  have s2: "fsub (Fin (2632443088 / 2 ^ 30)) (Fin (2632400000 / 2 ^ 30)) = Fin (43088 / 2 ^ 30)"
    using pack_dyadic30[of 43088] by (simp add: fsub_def)
  have z1: "hundredths (23080 / 2 ^ 30) = 0" by (rule hundredths_unique) simp_all
  have z2: "hundredths (43088 / 2 ^ 30) = 0" by (rule hundredths_unique) simp_all
  have e1: "estimate_vram_endpoint \<lparr>height = 8, width = 8, prompt_length = 1, optimization = True\<rparr>
     = Inr (Success \<lparr>predicted_vram_gb = round2 (Fin (2632423080 / 2 ^ 30)),
              attention_mode = ''Optimized (Linear Scaling)'',
              fixed_cost_gb = Fin (rnd (245 / 100)),
              spatial_cost_gb = round2 (fsub (Fin (2632423080 / 2 ^ 30)) (Fin (2632400000 / 2 ^ 30)))\<rparr>)"
  proof (rule endpoint_success)
    show "Fin (2632423080 / 2 ^ 30) = PInf
          \<or> (\<exists>v. Fin (2632423080 / 2 ^ 30) = Fin v \<and> \<bar>v\<bar> \<le> 2 ^ 994)"
      by (intro disjI2 exI[of _ "2632423080 / 2 ^ 30"]) simp
  qed (simp_all add: estimate_8_8)
  have e2: "estimate_vram_endpoint \<lparr>height = 16, width = 8, prompt_length = 1, optimization = True\<rparr>
     = Inr (Success \<lparr>predicted_vram_gb = round2 (Fin (2632443088 / 2 ^ 30)),
              attention_mode = ''Optimized (Linear Scaling)'',
              fixed_cost_gb = Fin (rnd (245 / 100)),
              spatial_cost_gb = round2 (fsub (Fin (2632443088 / 2 ^ 30)) (Fin (2632400000 / 2 ^ 30)))\<rparr>)"
  proof (rule endpoint_success)
    show "Fin (2632443088 / 2 ^ 30) = PInf
          \<or> (\<exists>v. Fin (2632443088 / 2 ^ 30) = Fin v \<and> \<bar>v\<bar> \<le> 2 ^ 994)"
      by (intro disjI2 exI[of _ "2632443088 / 2 ^ 30"]) simp
  qed (simp_all add: estimate_16_8)
  show ?thesis unfolding e1 e2 s1 s2 round2_def fl.case h1 h2 z1 z2 by simp
qed


text \<open>
  C5, as amended. For fixed width, prompt length and flag, and valid heights \<open>h1 < h2\<close>
  (positive multiples of 8), the handler answers both requests with a success response as
  long as \<open>h2\<close> and the width are below \<open>2 ^ 1027 - 2 ^ 973\<close>, and
  \<^verbatim>\<open>predicted_vram_gb\<close> for \<open>h2\<close> is greater than or equal to \<^verbatim>\<open>predicted_vram_gb\<close> for
  \<open>h1\<close>; beyond that bound the request for \<open>h2\<close> raises \<^verbatim>\<open>OverflowError\<close>.
\<close>

theorem predicted_vram_monotone_in_height:
  assumes "0 < h1" "h1 < h2" "8 dvd h1" "8 dvd h2" "0 < w" "8 dvd w" "1 \<le> p" "p \<le> 77"
  shows "(2 ^ 1027 - 2 ^ 973 \<le> h2 \<or> 2 ^ 1027 - 2 ^ 973 \<le> w)
           \<and> estimate_vram_endpoint
                \<lparr>height = h2, width = w, prompt_length = p, optimization = opt\<rparr>
               = Inl OverflowError
       \<or> h2 < 2 ^ 1027 - 2 ^ 973 \<and> w < 2 ^ 1027 - 2 ^ 973
           \<and> (\<exists>s1 s2.
                estimate_vram_endpoint
                  \<lparr>height = h1, width = w, prompt_length = p, optimization = opt\<rparr>
                  = Inr (Success s1)
              \<and> estimate_vram_endpoint
                  \<lparr>height = h2, width = w, prompt_length = p, optimization = opt\<rparr>
                  = Inr (Success s2)
              \<and> fl_le (predicted_vram_gb s1) (predicted_vram_gb s2))"
proof (cases "2 ^ 1027 - 2 ^ 973 \<le> h2 \<or> 2 ^ 1027 - 2 ^ 973 \<le> w")
  case True
  have "f_estimate h2 w p opt = Inl OverflowError"
    using True assms(1,2,5) unfolding f_estimate_divisible[OF assms(4,6)] by auto
  then show ?thesis using True assms by (simp add: estimate_vram_endpoint_def)
next
  case False
  define a1 a2 b where "a1 = rnd (of_int (h1 div 8))" and "a2 = rnd (of_int (h2 div 8))"
    and "b = rnd (of_int (w div 8))"
  define n where "n = 2632400000 + 3072 * p"
  define g1 g2 where "g1 = estimate_gb a1 b (of_int n) opt" and "g2 = estimate_gb a2 b (of_int n) opt"
  have nn: "0 \<le> a1" "0 \<le> a2" "0 \<le> b"
    using assms(1,2,5) by (simp_all add: a1_def a2_def b_def rnd_nonneg pos_imp_zdiv_nonneg_iff)
  have "h1 div 8 \<le> h2 div 8" using assms(2) by (intro zdiv_mono1) simp_all
  then have a12: "a1 \<le> a2" unfolding a1_def a2_def by (intro rnd_mono) simp
  have n: "2632400000 \<le> n" "\<bar>n\<bar> < 2 ^ 53" using assms(7,8) by (simp_all add: n_def)
  have e1: "f_estimate h1 w p opt = Inr (g1, mode_description opt)"
    using False assms(1,2,5) base_small[OF assms(7,8)]
    unfolding f_estimate_divisible[OF assms(3,6)] g1_def a1_def b_def n_def by simp
  have e2: "f_estimate h2 w p opt = Inr (g2, mode_description opt)"
    using False assms(1,2,5) base_small[OF assms(7,8)]
    unfolding f_estimate_divisible[OF assms(4,6)] g2_def a2_def b_def n_def by simp
  have f1: "fl_le (Fin (2632400000 / 2 ^ 30)) g1" unfolding g1_def using nn n by (intro estimate_gb_ge_fixed)
  have f2: "fl_le (Fin (2632400000 / 2 ^ 30)) g2" unfolding g2_def using nn n by (intro estimate_gb_ge_fixed)
  have z: "fl_le (Fin 0) (Fin (2632400000 / 2 ^ 30))" by simp
  have p1: "fl_le (Fin 0) g1" and p2: "fl_le (Fin 0) g2" using z f1 f2 fl_le_trans by blast+
  have c1: "g1 = PInf \<or> (\<exists>v. g1 = Fin v \<and> \<bar>v\<bar> \<le> 2 ^ 994)"
    using estimate_gb_cases[of a1 b "of_int n" opt] p1 unfolding g1_def by auto
  have c2: "g2 = PInf \<or> (\<exists>v. g2 = Fin v \<and> \<bar>v\<bar> \<le> 2 ^ 994)"
    using estimate_gb_cases[of a2 b "of_int n" opt] p2 unfolding g2_def by auto
  have le: "fl_le g1 g2" unfolding g1_def g2_def using nn a12 n by (intro estimate_gb_mono) simp_all
  have r1: "estimate_vram_endpoint \<lparr>height = h1, width = w, prompt_length = p, optimization = opt\<rparr>
     = Inr (Success \<lparr>predicted_vram_gb = round2 g1, attention_mode = mode_description opt,
              fixed_cost_gb = Fin (rnd (245 / 100)),
              spatial_cost_gb = round2 (fsub g1 (Fin (2632400000 / 2 ^ 30)))\<rparr>)"
    using assms e1 p1 c1 by (intro endpoint_success) simp_all
  have r2: "estimate_vram_endpoint \<lparr>height = h2, width = w, prompt_length = p, optimization = opt\<rparr>
     = Inr (Success \<lparr>predicted_vram_gb = round2 g2, attention_mode = mode_description opt,
              fixed_cost_gb = Fin (rnd (245 / 100)),
              spatial_cost_gb = round2 (fsub g2 (Fin (2632400000 / 2 ^ 30)))\<rparr>)"
    using assms e2 p2 c2 by (intro endpoint_success) simp_all
  show ?thesis using False r1 r2 round2_mono[OF le] by simp
qed

theorem predicted_vram_monotone_in_height_witness:
  "(0::int) < 512 \<and> (512::int) < 1024 \<and> 8 dvd (512::int) \<and> 8 dvd (1024::int)
   \<and> (1::int) \<le> 20 \<and> (20::int) \<le> 77
   \<and> (\<exists>s1 s2.
          estimate_vram_endpoint
            \<lparr>height = 512, width = 512, prompt_length = 20, optimization = True\<rparr> = Inr (Success s1)
        \<and> estimate_vram_endpoint
            \<lparr>height = 1024, width = 512, prompt_length = 20, optimization = True\<rparr> = Inr (Success s2)
        \<and> fl_le (predicted_vram_gb s1) (predicted_vram_gb s2))"
  using predicted_vram_monotone_in_height[of 512 1024 512 20 True] by simp

section \<open>Claim C6: memory-efficient attention gives the lower estimate\<close>

text \<open>
  For height and width \<open>2 ^ 515\<close> the latent pixel count \<open>2 ^ 512 * 2 ^ 512\<close> overflows
  to the float infinity, and so do both estimates: they are equal, and the pixel count is
  not 0.
\<close>

theorem both_estimates_infinite_at_2_515:
  "0 < (2 ^ 515 :: int) \<and> 8 dvd (2 ^ 515 :: int)
   \<and> f_estimate (2 ^ 515) (2 ^ 515) 20 True = Inr (PInf, ''Optimized (Linear Scaling)'')
   \<and> f_estimate (2 ^ 515) (2 ^ 515) 20 False = Inr (PInf, ''Standard (Quadratic Overhead)'')"
proof -
  have d: "8 dvd (2 ^ 515 :: int)" using le_imp_power_dvd[of 3 515 "2::int"] by simp
  have q: "(2 ^ 515 :: int) div 8 = 2 ^ 512" by simp
  have a: "rnd (rat_of_int (2 ^ 515 div 8)) = 2 ^ 512" unfolding q using rnd_pow2[of 512] by simp
  have "rnd (2 ^ 512 * 2 ^ 512) = 2 ^ 1024" using rnd_pow2[of 1024] by simp
  then have n: "fmul (Fin (2 ^ 512)) (Fin (2 ^ 512)) = PInf" by (simp add: pack_def)
  have g: "estimate_gb (2 ^ 512) (2 ^ 512) c opt = PInf" for c opt
    unfolding estimate_gb_def n
    by (simp add: peak_activation_def K_ATTN_STANDARD_MULTIPLIER_def K_ITER_BASE_def to_gb_def)
  show ?thesis using d unfolding f_estimate_divisible[OF d d] a g
    by (simp add: mode_description_def)
qed


text \<open>
  C6, as amended. For every valid input (height and width positive multiples of 8 below
  \<open>2 ^ 1027 - 2 ^ 973\<close>, prompt length in [1, 77]) the estimator returns an estimate for
  both values of the flag, and the estimate with memory-efficient attention is strictly lower
  than the one with standard attention, unless both are the float infinity. For a larger
  height or width both calls raise \<^verbatim>\<open>OverflowError\<close>.
\<close>

theorem optimized_estimate_strictly_lower:
  assumes "0 < h" "8 dvd h" "0 < w" "8 dvd w" "1 \<le> p" "p \<le> 77"
  shows "(2 ^ 1027 - 2 ^ 973 \<le> h \<or> 2 ^ 1027 - 2 ^ 973 \<le> w)
           \<and> f_estimate h w p True = Inl OverflowError
           \<and> f_estimate h w p False = Inl OverflowError
       \<or> h < 2 ^ 1027 - 2 ^ 973 \<and> w < 2 ^ 1027 - 2 ^ 973
           \<and> (\<exists>g1 g2. f_estimate h w p True = Inr (g1, ''Optimized (Linear Scaling)'')
                \<and> f_estimate h w p False = Inr (g2, ''Standard (Quadratic Overhead)'')
                \<and> (fl_lt g1 g2 \<or> g1 = PInf \<and> g2 = PInf))"
proof (cases "2 ^ 1027 - 2 ^ 973 \<le> h \<or> 2 ^ 1027 - 2 ^ 973 \<le> w")
  case True
  then show ?thesis using assms(1,3) unfolding f_estimate_divisible[OF assms(2,4)] by auto
next
  case False
  define a b where "a = rnd (of_int (h div 8))" and "b = rnd (of_int (w div 8))"
  define n where "n = 2632400000 + 3072 * p"
  have "1 \<le> h div 8" "1 \<le> w div 8" using assms(1-4) by (auto simp: dvd_def)
  then have "(1::rat) \<le> of_int (h div 8)" "(1::rat) \<le> of_int (w div 8)" by simp_all
  then have ab: "1 \<le> a" "1 \<le> b" unfolding a_def b_def by (simp_all add: rnd_ge_1)
  have n: "0 \<le> rat_of_int n" "rat_of_int n \<le> 2 ^ 32"
  proof -
    have "0 \<le> n" "n \<le> 2 ^ 32" using assms(5,6) by (simp_all add: n_def)
    then have "rat_of_int 0 \<le> of_int n" "rat_of_int n \<le> of_int (2 ^ 32)"
      by (simp_all only: of_int_le_iff)
    then show "0 \<le> rat_of_int n" "rat_of_int n \<le> 2 ^ 32" by simp_all
  qed
  have e: "f_estimate h w p opt = Inr (estimate_gb a b (of_int n) opt, mode_description opt)" for opt
    using False assms(1,3) base_small[OF assms(5,6)]
    unfolding f_estimate_divisible[OF assms(2,4)] a_def b_def n_def by simp
  show ?thesis using False e[of True] e[of False] estimate_gb_strict[OF ab n]
    by (auto simp: mode_description_def)
qed

theorem optimized_estimate_strictly_lower_witness:
  "(0::int) < 512 \<and> 8 dvd (512::int) \<and> (1::int) \<le> 20 \<and> (20::int) \<le> 77
   \<and> f_estimate 512 512 20 True = Inr (Fin (2714414208 / 2 ^ 30), ''Optimized (Linear Scaling)'')
   \<and> f_estimate 512 512 20 False = Inr (Fin (2734894208 / 2 ^ 30), ''Standard (Quadratic Overhead)'')
   \<and> fl_lt (Fin (2714414208 / 2 ^ 30)) (Fin (2734894208 / 2 ^ 30))"
  using optimized_estimate_strictly_lower[of 512 512 20] estimate_512_opt estimate_512_std
  by simp

section \<open>Claim C7: the prompt length check\<close>

text \<open>
  C7. The request handler rejects with the error "Invalid prompt length" exactly when the
  prompt length is below 1 or above 77, for every request that reaches this check, that is
  with positive height and width (the dimension check comes first and answers the others):
  a prompt length of 0 or of 78 is rejected with this error, and a prompt length of 77 is
  not; with it a request whose height and width are multiples of 8 is accepted and gets a
  success response.
\<close>

theorem invalid_prompt_length_iff:
  assumes "0 < height r" "0 < width r"
  shows "(rejected_with ''Invalid prompt length'' (estimate_vram_endpoint r)
          \<longleftrightarrow> prompt_length r < 1 \<or> prompt_length r > 77)
       \<and> (1 \<le> prompt_length r \<and> prompt_length r \<le> 77
            \<and> 8 dvd height r \<and> height r < 2 ^ 1027 - 2 ^ 973
            \<and> 8 dvd width r \<and> width r < 2 ^ 1027 - 2 ^ 973
          \<longrightarrow> (\<exists>s. estimate_vram_endpoint r = Inr (Success s)))"
proof
  show "rejected_with ''Invalid prompt length'' (estimate_vram_endpoint r)
          \<longleftrightarrow> prompt_length r < 1 \<or> prompt_length r > 77"
  proof (cases "prompt_length r < 1 \<or> prompt_length r > 77")
    case True
    then show ?thesis using assms by (simp add: estimate_vram_endpoint_def rejected_with_def)
  next
    case False
    have "\<not> rejected_with ''Invalid prompt length'' (estimate_vram_endpoint r)"
    proof (cases "f_estimate (height r) (width r) (prompt_length r) (optimization r)")
      case (Inl e)
      then show ?thesis using assms False by (simp add: estimate_vram_endpoint_def rejected_with_def)
    next
      case (Inr vm)
      obtain v m where vm: "vm = (v, m)" by (cases vm)
      note mode = f_estimate_mode[OF Inr[unfolded vm]]
      have m: "m \<noteq> ''Invalid prompt length''" using mode by (auto split: if_splits)
      show ?thesis using assms False Inr vm m
        by (auto simp: estimate_vram_endpoint_def rejected_with_def bind_err_def split: sum.splits)
    qed
    then show ?thesis using False by simp
  qed
next
  have r: "r = \<lparr>height = height r, width = width r, prompt_length = prompt_length r,
                optimization = optimization r\<rparr>" by simp
  show "1 \<le> prompt_length r \<and> prompt_length r \<le> 77
            \<and> 8 dvd height r \<and> height r < 2 ^ 1027 - 2 ^ 973
            \<and> 8 dvd width r \<and> width r < 2 ^ 1027 - 2 ^ 973
          \<longrightarrow> (\<exists>s. estimate_vram_endpoint r = Inr (Success s))"
  proof
    assume a: "1 \<le> prompt_length r \<and> prompt_length r \<le> 77
            \<and> 8 dvd height r \<and> height r < 2 ^ 1027 - 2 ^ 973
            \<and> 8 dvd width r \<and> width r < 2 ^ 1027 - 2 ^ 973"
    obtain g where "estimate_vram_endpoint \<lparr>height = height r, width = width r,
          prompt_length = prompt_length r, optimization = optimization r\<rparr>
        = Inr (Success \<lparr>predicted_vram_gb = round2 g,
                 attention_mode = mode_description (optimization r),
                 fixed_cost_gb = Fin (rnd (245 / 100)),
                 spatial_cost_gb = round2 (fsub g (Fin (2632400000 / 2 ^ 30)))\<rparr>)"
      using valid_request_succeeds[of "height r" "width r" "prompt_length r" "optimization r"]
        assms a by blast
    then show "\<exists>s. estimate_vram_endpoint r = Inr (Success s)" using r by metis
  qed
qed

theorem invalid_prompt_length_iff_witness:
  "(0::int) < 512 \<and> 8 dvd (512::int)
   \<and> rejected_with ''Invalid prompt length''
     (estimate_vram_endpoint \<lparr>height = 512, width = 512, prompt_length = 0, optimization = True\<rparr>)
   \<and> \<not> rejected_with ''Invalid prompt length''
     (estimate_vram_endpoint \<lparr>height = 512, width = 512, prompt_length = 77, optimization = True\<rparr>)
   \<and> (\<exists>s. estimate_vram_endpoint
            \<lparr>height = 512, width = 512, prompt_length = 77, optimization = True\<rparr> = Inr (Success s))
   \<and> rejected_with ''Invalid prompt length''
     (estimate_vram_endpoint \<lparr>height = 512, width = 512, prompt_length = 78, optimization = True\<rparr>)"
  using invalid_prompt_length_iff
          [of "\<lparr>height = 512, width = 512, prompt_length = 0, optimization = True\<rparr>"]
        invalid_prompt_length_iff
          [of "\<lparr>height = 512, width = 512, prompt_length = 77, optimization = True\<rparr>"]
        invalid_prompt_length_iff
          [of "\<lparr>height = 512, width = 512, prompt_length = 78, optimization = True\<rparr>"]
  by simp

section \<open>Claim C8: non-positive dimensions are rejected first\<close>

text \<open>
  C8. Every request whose height or width is not positive is answered by the handler with the
  error "Invalid dimensions", whatever the other fields are, also when the prompt length is
  out of range as well.
\<close>

theorem nonpositive_dimensions_rejected:
  "height r \<le> 0 \<or> width r \<le> 0 \<Longrightarrow>
   estimate_vram_endpoint r =
     Inr (Rejected ''Invalid dimensions'' ''Height and width must be positive integers.'')"
  by (simp add: estimate_vram_endpoint_def)

theorem nonpositive_dimensions_rejected_witness:
  "estimate_vram_endpoint \<lparr>height = 0, width = 512, prompt_length = 0, optimization = True\<rparr> =
     Inr (Rejected ''Invalid dimensions'' ''Height and width must be positive integers.'')
   \<and> estimate_vram_endpoint \<lparr>height = 512, width = - 10, prompt_length = 78, optimization = False\<rparr> =
     Inr (Rejected ''Invalid dimensions'' ''Height and width must be positive integers.'')"
  using nonpositive_dimensions_rejected
          [of "\<lparr>height = 0, width = 512, prompt_length = 0, optimization = True\<rparr>"]
        nonpositive_dimensions_rejected
          [of "\<lparr>height = 512, width = - 10, prompt_length = 78, optimization = False\<rparr>"]
  by simp


section \<open>Claim C9: the rounded fields of a successful response\<close>

text \<open>
  For height and width \<open>2 ^ 40\<close> the estimate is \<open>2501 * 2 ^ 47\<close> gigabytes, where
  neighbouring floats are 64 apart: subtracting the fixed cost changes nothing, and the
  handler reports a spatial cost equal to the predicted total, 2.45 away from the difference
  of the two rounded fields.
\<close>

lemma bytes_2_40: "pack (2632461440 + 377940434357023445742518272) = Fin 377940434357023445742518272"
proof -
  have h: "rhe (377940434357023448374979712 / 2 ^ 36) = 5499757162135552"
    by (rule rhe_unique) simp_all
  have "rnd 377940434357023448374979712 = of_int 5499757162135552 * 2 powi 36"
    by (rule rnd_eval[where e = 88 and q = 36]) (use h in simp_all)
  then have r: "rnd 377940434357023448374979712 = 377940434357023445742518272" by simp
  show ?thesis using pack_Fin[of 377940434357023448374979712] unfolding r by simp
qed

lemma estimate_2_40:
  "f_estimate (2 ^ 40) (2 ^ 40) 20 True = Inr (Fin 351984458376675328, ''Optimized (Linear Scaling)'')"
proof -
  have d: "8 dvd (2 ^ 40 :: int)" by simp
  have a: "rnd (rat_of_int (2 ^ 40 div 8)) = 2 ^ 37" using rnd_exact_int[of "2 ^ 37"] by simp
  have b: "rnd (rat_of_int (2632400000 + 3072 * 20)) = 2632461440"
    using rnd_exact_int[of 2632461440] by simp
  have g: "pack (377940434357023445742518272 / 2 ^ 30) = Fin 351984458376675328" using pack_exact[of 2501 47] by simp
  have "estimate_gb (2 ^ 37) (2 ^ 37) 2632461440 True = Fin 351984458376675328"
    using pack_exact[of 1 74] pack_exact[of 625 79] pack_exact[of 1 76] pack_exact[of 1 77]
      pack_exact[of 2501 77] bytes_2_40 g
    by (simp add: estimate_gb_def peak_activation_def to_gb_def K_ITER_BASE_def)
  then show ?thesis unfolding f_estimate_divisible[OF d d] a b by (simp add: mode_description_def)
qed

lemma spatial_2_40: "fsub (Fin 351984458376675328) (Fin (2632400000 / 2 ^ 30)) = Fin 351984458376675328"
proof -
  have h: "rhe ((351984458376675328 - 2632400000 / 2 ^ 30) / 2 ^ 6) = 5499757162135552"
    by (rule rhe_unique) simp_all
  have "rnd (351984458376675328 - 2632400000 / 2 ^ 30) = of_int 5499757162135552 * 2 powi 6"
    by (rule rnd_eval[where e = 58 and q = 6]) (use h in simp_all)
  then have r: "rnd (351984458376675328 - 2632400000 / 2 ^ 30) = 351984458376675328" by simp
  show ?thesis unfolding fsub_def using pack_Fin[of "351984458376675328 - 2632400000 / 2 ^ 30"] unfolding r by simp
qed

lemma round_2_40: "py_round2 (Fin 351984458376675328) = Inr (Fin 351984458376675328)"
proof -
  have h: "hundredths 351984458376675328 = 35198445837667532800" using rhe_of_int[of 35198445837667532800] by (simp add: hundredths_def)
  have r: "rnd 351984458376675328 = 351984458376675328" using rnd_exact[of 2501 47] by simp
  show ?thesis using py_round2_Fin[of 351984458376675328] unfolding h by (simp add: r)
qed

theorem spatial_cost_equals_predicted_at_2_40:
  "estimate_vram_endpoint
     \<lparr>height = 2 ^ 40, width = 2 ^ 40, prompt_length = 20, optimization = True\<rparr>
   = Inr (Success \<lparr>predicted_vram_gb = Fin 351984458376675328,
            attention_mode = ''Optimized (Linear Scaling)'',
            fixed_cost_gb = Fin (rnd (245 / 100)),
            spatial_cost_gb = Fin 351984458376675328\<rparr>)
   \<and> 2 \<le> rnd (245 / 100)"
proof -
  have f: "py_round2 (Fin (2632400000 / 2 ^ 30)) = Inr (Fin (rnd (245 / 100)))"
    using py_round2_Fin[of "2632400000 / 2 ^ 30"] unfolding hundredths_fixed by simp
  have "rnd 2 \<le> rnd (245 / 100)" by (rule rnd_mono) simp
  then have two: "2 \<le> rnd (245 / 100)" using rnd_exact_int[of 2] by simp
  show ?thesis
    unfolding estimate_vram_endpoint_def
    using estimate_2_40 fixed_cost_gb_value spatial_2_40 round_2_40 f two by simp
qed


text \<open>
  C9, as amended. In every successful response \<^verbatim>\<open>predicted_vram_gb\<close>, \<^verbatim>\<open>fixed_cost_gb\<close> and
  \<^verbatim>\<open>spatial_cost_gb\<close> are \<^verbatim>\<open>round(., 2)\<close> of the unrounded estimate, of the unrounded fixed
  cost and of the float difference of these two. When the predicted value is below
  \<open>2 ^ 45\<close> gigabytes, the two-decimal numbers reported satisfy: the spatial cost differs
  from predicted minus fixed by at most one hundredth.
\<close>

theorem response_fields_are_rounded:
  assumes "estimate_vram_endpoint r = Inr (Success s)"
  shows "\<exists>g. f_estimate (height r) (width r) (prompt_length r) (optimization r)
               = Inr (g, attention_mode s)
     \<and> bytes_to_gb_int (C_WEIGHTS_BYTES + C_OVERHEAD_BYTES) = Inr (Fin (2632400000 / 2 ^ 30))
     \<and> py_round2 g = Inr (predicted_vram_gb s)
     \<and> py_round2 (Fin (2632400000 / 2 ^ 30)) = Inr (fixed_cost_gb s)
     \<and> py_round2 (fsub g (Fin (2632400000 / 2 ^ 30))) = Inr (spatial_cost_gb s)
     \<and> (\<forall>p f sp. predicted_vram_gb s = Fin p \<and> \<bar>p\<bar> < 2 ^ 45
            \<and> fixed_cost_gb s = Fin f \<and> spatial_cost_gb s = Fin sp
          \<longrightarrow> \<bar>hundredths sp - (hundredths p - hundredths f)\<bar> \<le> 1)"
proof -
  obtain g where g: "f_estimate (height r) (width r) (prompt_length r) (optimization r)
               = Inr (g, attention_mode s)"
     "py_round2 g = Inr (predicted_vram_gb s)"
     "py_round2 (Fin (2632400000 / 2 ^ 30)) = Inr (fixed_cost_gb s)"
     "py_round2 (fsub g (Fin (2632400000 / 2 ^ 30))) = Inr (spatial_cost_gb s)"
    using endpoint_success_D[OF assms] by blast
  have "\<bar>hundredths sp - (hundredths p - hundredths f)\<bar> \<le> 1"
    if "predicted_vram_gb s = Fin p" "\<bar>p\<bar> < 2 ^ 45" "fixed_cost_gb s = Fin f"
       "spatial_cost_gb s = Fin sp" for p f sp
    using displayed_hundredths[of g p f sp] g(2,3,4) that by simp
  then show ?thesis using g fixed_cost_gb_value by blast
qed

theorem response_fields_are_rounded_witness:
  "estimate_vram_endpoint \<lparr>height = 512, width = 512, prompt_length = 20, optimization = True\<rparr>
     = Inr (Success \<lparr>predicted_vram_gb = Fin (rnd (253 / 100)),
              attention_mode = ''Optimized (Linear Scaling)'',
              fixed_cost_gb = Fin (rnd (245 / 100)),
              spatial_cost_gb = Fin (rnd (8 / 100))\<rparr>)
   \<and> \<bar>rnd (253 / 100)\<bar> < 2 ^ 45
   \<and> \<bar>hundredths (rnd (8 / 100)) - (hundredths (rnd (253 / 100)) - hundredths (rnd (245 / 100)))\<bar> \<le> 1"
proof -
  have "\<bar>rnd (253 / 100)\<bar> \<le> 2 powi 2" by (rule rnd_abs_le_pow2) simp_all
  then have b: "\<bar>rnd (253 / 100)\<bar> < 2 ^ 45" by simp
  show ?thesis using response_fields_are_rounded[OF endpoint_512_opt] endpoint_512_opt b by auto
qed

section \<open>Claim C10: the estimator checks nothing but divisibility by 8\<close>

text \<open>
  The sum \<^verbatim>\<open>M_fixed + M_prompt\<close> is an \<^verbatim>\<open>int\<close> and is converted to a float when the
  activation cost is added to it: a prompt length of \<open>2 ^ 1024\<close> raises \<^verbatim>\<open>OverflowError\<close>.
\<close>

theorem huge_prompt_length_raises_overflow:
  "8 dvd (8::int) \<and> f_estimate 8 8 (2 ^ 1024) True = Inl OverflowError"
  using f_estimate_divisible[of 8 8 "2 ^ 1024" True] by simp


text \<open>
  C10, as amended. For all integers height and width divisible by 8 (zero and negative
  values included) and every integer prompt length (values outside [1, 77] included) the
  estimator does range checks of its own on none of them: it returns a computed estimate
  with the description of the attention mode, never the sentinel, as long as the floats can
  hold the operands, that is for \<open>\<bar>height\<bar>\<close> and \<open>\<bar>width\<bar>\<close> below \<open>2 ^ 1027 - 2 ^ 973\<close> and
  \<open>\<bar>2632400000 + 3072 * prompt_length\<bar>\<close> below \<open>2 ^ 1024 - 2 ^ 970\<close>; beyond, it raises
  \<^verbatim>\<open>OverflowError\<close>.
\<close>

theorem estimator_computes_on_multiples_of_8:
  assumes "8 dvd h" "8 dvd w"
  shows "(2 ^ 1027 - 2 ^ 973 \<le> \<bar>h\<bar> \<or> 2 ^ 1027 - 2 ^ 973 \<le> \<bar>w\<bar>
            \<or> 2 ^ 1024 - 2 ^ 970 \<le> \<bar>2632400000 + 3072 * p\<bar>)
           \<and> f_estimate h w p opt = Inl OverflowError
       \<or> \<bar>h\<bar> < 2 ^ 1027 - 2 ^ 973 \<and> \<bar>w\<bar> < 2 ^ 1027 - 2 ^ 973
           \<and> \<bar>2632400000 + 3072 * p\<bar> < 2 ^ 1024 - 2 ^ 970
           \<and> (\<exists>g. f_estimate h w p opt = Inr (g, mode_description opt) \<and> g \<noteq> NaN)"
proof (cases "2 ^ 1027 - 2 ^ 973 \<le> \<bar>h\<bar> \<or> 2 ^ 1027 - 2 ^ 973 \<le> \<bar>w\<bar>
            \<or> 2 ^ 1024 - 2 ^ 970 \<le> \<bar>2632400000 + 3072 * p\<bar>")
  case True
  then show ?thesis unfolding f_estimate_divisible[OF assms] by simp
next
  case False
  show ?thesis using False estimate_gb_not_NaN unfolding f_estimate_divisible[OF assms] by auto
qed

theorem estimator_computes_on_multiples_of_8_witness:
  "8 dvd (0::int) \<and> 8 dvd (- 8 :: int)
   \<and> (\<exists>g. f_estimate 0 (- 8) 100 False = Inr (g, ''Standard (Quadratic Overhead)'') \<and> g \<noteq> NaN)"
  using estimator_computes_on_multiples_of_8[of 0 "- 8" 100 False]
  by (simp add: mode_description_def)

end
